theory Spec2Isabelle
  imports Complex_Main "HOL-Library.Word"
begin

unbundle bit_operations_syntax

section \<open>Indel realignment of bam2bcf\_edlib.c: data model\<close>

text \<open>
  The C \<open>int\<close> values of the source are modelled as \<open>int\<close>; where the source relies on
  32-bit wrap-around (the \<open>uint32_t aux[]\<close> keys of \<open>bcf_cgp_find_types\<close>) the reduction
  modulo \<open>2 ^ 32\<close> is written out. The \<open>double\<close> computations are modelled by exact
  rational arithmetic, and the conversion of a \<open>double\<close> to \<open>int\<close> by truncation towards
  zero. The 32-bit range of \<open>int\<close> is written out in \<open>est_seqQ\<close> and in the score that
  \<open>bcf_cgp_align_score\<close> stores; elsewhere \<open>int\<close> arithmetic is taken not to overflow.
\<close>

definition trunc :: "rat \<Rightarrow> int" where
  "trunc x = (if 0 \<le> x then \<lfloor>x\<rfloor> else \<lceil>x\<rceil>)"

text \<open>Conversion of a value to \<open>uint32_t\<close> and to \<open>int32_t\<close>.\<close>

definition u32 :: "int \<Rightarrow> int" where
  "u32 x = x mod 2 ^ 32"

definition i32 :: "int \<Rightarrow> int" where
  "i32 x = (let y = x mod 2 ^ 32 in if y < 2 ^ 31 then y else y - 2 ^ 32)"

definition INT_MIN :: int where
  "INT_MIN = - 2147483648"

text \<open>
  The conversion \<open>(int)x\<close> of a \<open>double\<close>: the value truncated towards zero when it fits
  an \<open>int\<close>. Outside that range C leaves the conversion undefined; the model takes the
  value that the conversion instruction of x86-64 delivers, \<open>INT_MIN\<close>. In the same way a
  signed operation that overflows is taken to wrap around.
\<close>

definition d2i :: "rat \<Rightarrow> int" where
  "d2i x = (if - 2147483649 < x \<and> x < 2147483648 then trunc x else INT_MIN)"

text \<open>The fields of \<open>bcf_callaux_t\<close> that the functions below read or write.\<close>

record bcf_callaux =
  openQ :: int
  extQ :: int
  tandemQ :: int
  min_support :: int
  min_frac :: rat
  per_sample_flt :: bool
  indel_win_size :: int
  poly_mqual :: bool
  max_support :: int
  max_frac :: rat
  maxins :: int
  inscns :: "int list"
  indel_types :: "int list"
  indelreg :: int

section \<open>est\_seqQ\<close>

text \<open>
  \<open>q = openQ + extQ * (abs(l) - 1)\<close> in 32-bit \<open>int\<close> arithmetic,
  \<open>qh = tandemQ * (double)abs(l) / l_run + .499\<close> computed as a \<open>double\<close> and converted to
  the \<open>int qh\<close>, and the result is \<open>q < qh ? q : qh\<close>. With \<open>l_run = 0\<close> the quotient is
  infinite or not a number, and its conversion gives \<open>INT_MIN\<close> as every value out of range
  does. The parameter \<open>str_len\<close> is part of the signature and is not read.
\<close>

definition est_seqQ :: "bcf_callaux \<Rightarrow> int \<Rightarrow> int \<Rightarrow> int \<Rightarrow> int" where
  "est_seqQ bca l l_run str_len =
     (let a = i32 \<bar>l\<bar>;
          q = i32 (openQ bca + i32 (extQ bca * i32 (a - 1)));
          qh = (if l_run = 0 then INT_MIN
                else d2i (of_int (tandemQ bca) * of_int a / of_int l_run + 499 / 1000))
      in if q < qh then q else qh)"

text \<open>
  The sizes and run lengths at which no step of \<open>est_seqQ\<close> leaves the range of \<open>int\<close>
  (for penalties that are not negative).
\<close>

definition seqQ_fits :: "bcf_callaux \<Rightarrow> int \<Rightarrow> int \<Rightarrow> bool" where
  "seqQ_fits bca l l_run =
     (\<bar>l\<bar> < 2 ^ 31 \<and> extQ bca < 2 ^ 31 \<and> extQ bca * (\<bar>l\<bar> - 1) < 2 ^ 31 \<and>
      openQ bca + extQ bca * (\<bar>l\<bar> - 1) < 2 ^ 31 \<and> - (2 ^ 31) \<le> openQ bca + extQ bca * (\<bar>l\<bar> - 1) \<and>
      (of_int (tandemQ bca) * of_int \<bar>l\<bar> / of_int l_run + 499 / 1000 :: rat) < 2 ^ 31)"

section \<open>The packed per-read annotation\<close>

text \<open>
  \<open>p->aux = (sc[0]&0x3f)<<16 | seqQ<<8 | indelQ\<close>, read back as \<open>(aux>>16)&0x3f\<close>,
  \<open>(aux>>8)&0xff\<close> and \<open>aux&0xff\<close>.
\<close>

definition pack_aux :: "int \<Rightarrow> int \<Rightarrow> int \<Rightarrow> int" where
  "pack_aux a seqQ indelQ = push_bit 16 a OR push_bit 8 seqQ OR indelQ"

definition aux_call :: "int \<Rightarrow> int" where
  "aux_call c = drop_bit 16 c AND 0x3f"

definition aux_seqQ :: "int \<Rightarrow> int" where
  "aux_seqQ c = drop_bit 8 c AND 0xff"

definition aux_indelQ :: "int \<Rightarrow> int" where
  "aux_indelQ c = c AND 0xff"

section \<open>bcf\_cgp\_find\_types\<close>

text \<open>
  A pileup entry \<open>bam_pileup1_t\<close> with the alignment \<open>p->b\<close> it points to: the fields this
  file reads, and the annotation \<open>aux\<close> it writes. \<open>qlen\<close> is \<open>bam_cigar2qlen\<close> of the
  read's CIGAR, \<open>b_pos\<close> is \<open>b->core.pos\<close>, \<open>cigar\<close> the operations with their lengths,
  \<open>seq\<close> the 4-bit base codes \<open>bam_seqi(seq, i)\<close>, \<open>qual\<close> the base qualities; \<open>l_qseq\<close>
  is the length of \<open>seq\<close>.
\<close>

datatype cigar_op =
    BAM_CMATCH | BAM_CINS | BAM_CDEL | BAM_CREF_SKIP | BAM_CSOFT_CLIP
  | BAM_CHARD_CLIP | BAM_CPAD | BAM_CEQUAL | BAM_CDIFF | BAM_CBACK

record read =
  indel :: int
  is_del :: bool
  aux :: int
  qpos :: int
  qlen :: int
  b_pos :: int
  cigar :: "(cigar_op \<times> int) list"
  seq :: "nat list"
  qual :: "int list"

definition MINUS_CONST :: int where
  "MINUS_CONST = 0x10000000"

definition MAX_TYPES :: int where
  "MAX_TYPES = 64"

text \<open>
  The outcome of the allocations of the source: each flag says whether that call returns a
  non-null pointer.
\<close>

record allocs =
  calloc_aux :: bool
  calloc_types :: bool
  realloc_inscns :: bool

text \<open>
  The inner loop over the reads of one sample: \<open>na\<close>, \<open>nt\<close>, the keys appended to
  \<open>aux[]\<close> and the running \<open>max_rd_len\<close>.
\<close>

fun tally_reads :: "read list \<Rightarrow> int \<times> int \<times> int list \<times> int \<Rightarrow> int \<times> int \<times> int list \<times> int" where
  "tally_reads [] st = st"
| "tally_reads (p # ps) (na, nt, keys, max_rd_len) =
     tally_reads ps
       (if indel p \<noteq> 0 then na + 1 else na,
        nt + 1,
        if indel p \<noteq> 0 then keys @ [u32 (MINUS_CONST + indel p)] else keys,
        if qlen p > max_rd_len then qlen p else max_rd_len)"

record tally =
  keys :: "int list"
  rd_len :: int
  support_ok :: bool
  n_alt :: int
  n_tot :: int
  cur_support :: int
  cur_frac :: rat

text \<open>
  The loop over the samples. \<open>frac = (double)na/nt\<close> is not a number when \<open>nt = 0\<close>, and
  every comparison with it is then false.
\<close>

fun tally_samples :: "bcf_callaux \<Rightarrow> read list list \<Rightarrow> tally \<Rightarrow> tally" where
  "tally_samples bca [] st = st"
| "tally_samples bca (smp # rest) st =
     (case tally_reads smp (0, 0, keys st, rd_len st) of (na, nt, ks, mx) \<Rightarrow>
        let frac = (of_int na / of_int nt :: rat);
            ok = (if support_ok st then True
                  else if nt = 0 then False
                  else na \<ge> min_support bca \<and> frac \<ge> min_frac bca);
            upd = (if nt = 0 then False else na > cur_support st \<and> frac > 0)
        in tally_samples bca rest
             \<lparr>keys = ks, rd_len = mx, support_ok = ok,
              n_alt = n_alt st + na, n_tot = n_tot st + nt,
              cur_support = (if upd then na else cur_support st),
              cur_frac = (if upd then frac else cur_frac st)\<rparr>)"

text \<open>\<open>for (i = 1, n_types = 1; i < m; ++i) if (aux[i] != aux[i-1]) ++n_types;\<close>\<close>

fun count_changes :: "int list \<Rightarrow> int" where
  "count_changes (a # b # xs) = (if b \<noteq> a then 1 else 0) + count_changes (b # xs)"
| "count_changes _ = 0"

text \<open>
  The runs of equal keys that the last loop walks (\<open>i\<close> the start of a run, \<open>j\<close> the first
  index after it): each run as its key and its length \<open>j - i\<close>.
\<close>

function runs :: "int list \<Rightarrow> (int \<times> int) list" where
  "runs [] = []"
| "runs (a # xs) =
     (a, 1 + int (length (takeWhile (\<lambda>x. x = a) xs))) # runs (dropWhile (\<lambda>x. x = a) xs)"
  by pat_completeness auto
termination
  by (relation "measure length") (auto simp: length_dropWhile_le less_Suc_eq_le)

definition type_sz :: "int \<Rightarrow> int" where
  "type_sz key = i32 (u32 (key - MINUS_CONST))"

text \<open>
  The size \<open>sz = (int32_t)(aux[i] - MINUS_CONST)\<close> of a key, and the test of the last loop
  on a run \<open>(key, j - i)\<close>: \<open>sz == 0 || (j-i >= min_support && (per_sample_flt ||
  (double)(j-i) / n_tot >= min_frac))\<close>. With \<open>n_tot = 0\<close> the quotient of the positive
  \<open>j - i\<close> is infinite and the comparison holds.
\<close>

definition keep_type :: "bcf_callaux \<Rightarrow> int \<Rightarrow> int \<times> int \<Rightarrow> bool" where
  "keep_type bca ntot run =
     (if type_sz (fst run) = 0 then True
      else if snd run \<ge> min_support bca
      then (if per_sample_flt bca then True
            else if ntot = 0 then True
            else (of_int (snd run) / of_int ntot :: rat) \<ge> min_frac bca)
      else False)"

text \<open>The character \<open>ref[i]\<close> of the NUL-terminated reference.\<close>

definition ref_at :: "string \<Rightarrow> int \<Rightarrow> char" where
  "ref_at rf i = (if 0 \<le> i \<and> i < int (length rf) then rf ! nat i else CHR 0x00)"

text \<open>\<open>for (i=pos; i<i_end && ref[i]; i++) nN += ref[i] == 'N';\<close> returns \<open>(i, nN)\<close>.\<close>

function count_N :: "string \<Rightarrow> int \<Rightarrow> int \<Rightarrow> int \<Rightarrow> int \<times> int" where
  "count_N rf i i_end nN =
     (if i < i_end \<and> ref_at rf i \<noteq> CHR 0x00
      then count_N rf (i + 1) i_end (nN + (if ref_at rf i = CHR ''N'' then 1 else 0))
      else (i, nN))"
  by pat_completeness auto
termination
  by (relation "measure (\<lambda>(rf, i, i_end, nN). nat (i_end - i))") auto
declare count_N.simps [simp del]

record found =
  types_r :: "int list"
  n_types_r :: int
  ref_type_r :: int
  max_rd_len_r :: int
  N_r :: int

text \<open>
  The state after the first loop, started with the key of the reference type
  (\<open>aux[m++] = MINUS_CONST\<close>), and the decision \<open>indel_support_ok\<close> after the test of
  \<open>per_sample_flt\<close>.
\<close>

definition find_types_tally :: "bcf_callaux \<Rightarrow> read list list \<Rightarrow> tally" where
  "find_types_tally bca plp =
     tally_samples (bca\<lparr>max_support := 0, max_frac := 0\<rparr>) plp
       \<lparr>keys = [u32 MINUS_CONST], rd_len = 0, support_ok = False,
        n_alt = 0, n_tot = 0, cur_support = 0, cur_frac = 0\<rparr>"

definition indel_support_ok :: "bcf_callaux \<Rightarrow> tally \<Rightarrow> bool" where
  "indel_support_ok bca st =
     (if per_sample_flt bca then support_ok st
      else if n_tot st \<noteq> 0 \<and> (of_int (n_alt st) / of_int (n_tot st) :: rat) < min_frac bca
      then False
      else if n_alt st < min_support bca then False
      else True)"

text \<open>
  The last loop: \<open>ks_introsort(uint32_t, m, aux)\<close> has sorted the keys in ascending order;
  every run of equal keys gives its size \<open>sz\<close>, which is kept by \<open>keep_type\<close>.
\<close>

definition select_types :: "bcf_callaux \<Rightarrow> tally \<Rightarrow> int list" where
  "select_types bca st =
     map (\<lambda>run. type_sz (fst run)) (filter (keep_type bca (n_tot st)) (runs (sort (keys st))))"

text \<open>
  \<open>bcf_cgp_find_types\<close>: the result is \<open>None\<close> where the source returns \<open>NULL\<close>; the second
  component is \<open>bca\<close> with \<open>max_support\<close> and \<open>max_frac\<close> as the call leaves them.
\<close>

definition bcf_cgp_find_types ::
  "allocs \<Rightarrow> read list list \<Rightarrow> int \<Rightarrow> bcf_callaux \<Rightarrow> string \<Rightarrow> found option \<times> bcf_callaux" where
  "bcf_cgp_find_types al plp ps bca rf =
     (let bca0 = bca\<lparr>max_support := 0, max_frac := 0\<rparr>
      in if \<not> calloc_aux al then (None, bca0)
      else
        let st = find_types_tally bca plp;
            bca1 = bca0\<lparr>max_support := cur_support st, max_frac := cur_frac st\<rparr>;
            n_types = 1 + count_changes (sort (keys st))
        in if n_types = 1 then (None, bca1)
        else if \<not> indel_support_ok bca st then (None, bca1)
        else if n_types \<ge> MAX_TYPES then (None, bca1)
        else
          case count_N rf ps
                 (ps + (if 2 * indel_win_size bca < rd_len st
                        then 2 * indel_win_size bca else rd_len st)) 0 of
            (i, nN) \<Rightarrow>
              if nN * 2 > i - ps then (None, bca1)
              else if \<not> calloc_types al then (None, bca1)
              else
                let types = select_types bca st
                in if int (length types) \<le> 1 then (None, bca1)
                else
                  (Some \<lparr>types_r = types, n_types_r = int (length types),
                         ref_type_r = int (length (takeWhile (\<lambda>x. x \<noteq> 0) types)),
                         max_rd_len_r = rd_len st,
                         N_r = sum_list (map (\<lambda>s. int (length s)) plp)\<rparr>, bca1))"

section \<open>bcf\_cgp\_consensus\<close>

subsection \<open>The frequency tables\<close>

text \<open>
  One slot \<open>j\<close> of a \<open>str_freq\<close> whose \<open>str[j]\<close> is not null: the insertion (base codes
  0 to 4) and its frequency; \<open>len[j]\<close> is the length of the insertion. A \<open>str_freq\<close> is the
  list of its slots in use, in slot order.
\<close>

record ins_alt =
  ins_str :: "int list"
  ins_freq :: int

type_synonym str_freq = "ins_alt list"

text \<open>
  \<open>bcf_cgp_append_cons\<close>: \<open>j\<close> is the first slot that holds the same insertion, or the
  first free slot; with all \<open>NI\<close> slots taken by other insertions the new one is discarded.
\<close>

definition NI :: nat where
  "NI = 100"

definition bcf_cgp_append_cons :: "str_freq \<Rightarrow> int list \<Rightarrow> int \<Rightarrow> str_freq" where
  "bcf_cgp_append_cons sf s fr =
     (let j = length (takeWhile (\<lambda>e. ins_str e \<noteq> s) sf)
      in if j \<ge> NI then sf
         else if j < length sf then sf[j := (sf ! j)\<lparr>ins_freq := ins_freq (sf ! j) + fr\<rparr>]
         else sf @ [\<lparr>ins_str = s, ins_freq = fr\<rparr>])"

text \<open>
  The four tables over the window: \<open>cons_base\<close> and \<open>cons_ins\<close> for the reads whose indel
  is the type under test, \<open>ref_base\<close> and \<open>ref_ins\<close> for the others. A row of a base table
  has six counters, for A, C, G, T, N and the gap.
\<close>

record freq_tables =
  f_cons_base :: "int list list"
  f_cons_ins :: "str_freq list"
  f_ref_base :: "int list list"
  f_ref_ins :: "str_freq list"

definition incr :: "int list list \<Rightarrow> int \<Rightarrow> int \<Rightarrow> int list list" where
  "incr tab i k = tab[nat i := (tab ! nat i)[nat k := tab ! nat i ! nat k + 1]]"

text \<open>
  The arguments of \<open>bcf_cgp_consensus\<close> that stay fixed during a call (\<open>c_min_support\<close>
  is \<open>bca->min_support\<close>).
\<close>

record cons_args =
  c_pos :: int
  c_left :: int
  c_right :: int
  c_type :: int
  c_biggest_del :: int
  c_ref :: string
  c_ref_len :: int
  c_min_support :: int

subsection \<open>Accumulating the reads\<close>

text \<open>
  The loop of a match operation, \<open>for (j = 0; j < len; j++, x++, y++)\<close>, on the reference
  coordinate \<open>x\<close>, the read coordinate \<open>y\<close> and the tables. \<open>nt16\<close> is the table
  \<open>seq_nt16_int\<close> of htslib, a parameter here.
\<close>

function match_loop ::
  "cons_args \<Rightarrow> (nat \<Rightarrow> int) \<Rightarrow> read \<Rightarrow> int \<Rightarrow> int \<Rightarrow> int \<times> int \<times> freq_tables \<Rightarrow> int \<times> int \<times> freq_tables" where
  "match_loop a nt16 p j len (x, y, tb) =
     (if j < len
      then (if x < c_left a then match_loop a nt16 p (j + 1) len (x + 1, y + 1, tb)
            else if x \<ge> c_right a then (x, y, tb)
            else match_loop a nt16 p (j + 1) len
                   (x + 1, y + 1,
                    if indel p = c_type a
                    then tb\<lparr>f_cons_base := incr (f_cons_base tb) (x - c_left a) (nt16 (seq p ! nat y))\<rparr>
                    else if x \<noteq> c_pos a + 1
                    then tb\<lparr>f_ref_base := incr (f_ref_base tb) (x - c_left a) (nt16 (seq p ! nat y))\<rparr>
                    else tb))
      else (x, y, tb))"
  by pat_completeness auto
termination
  by (relation "measure (\<lambda>(a, nt16, p, j, len, st). nat (len - j))") auto
declare match_loop.simps [simp del]

text \<open>The loop of a deletion, \<open>for (j = 0; j < len; j++, x++)\<close>, with its marker \<open>skip_to\<close>.\<close>

function del_loop ::
  "cons_args \<Rightarrow> read \<Rightarrow> int \<Rightarrow> int \<Rightarrow> int \<times> int \<times> freq_tables \<Rightarrow> int \<times> int \<times> freq_tables" where
  "del_loop a p j len (x, skip_to, tb) =
     (if j < len
      then (if x < c_left a then del_loop a p (j + 1) len (x + 1, skip_to, tb)
            else if x \<ge> c_right a then (x, skip_to, tb)
            else if (indel p = c_type a \<and> \<not> is_del p) \<or> (indel p = 0 \<and> is_del p \<and> len = - c_type a)
            then del_loop a p (j + 1) len
                   (x + 1, skip_to, tb\<lparr>f_cons_base := incr (f_cons_base tb) (x - c_left a) 5\<rparr>)
            else if x + len \<le> c_pos a + 1 \<or> (skip_to \<noteq> 0 \<and> x > skip_to)
            then del_loop a p (j + 1) len
                   (x + 1, skip_to, tb\<lparr>f_ref_base := incr (f_ref_base tb) (x - c_left a) 5\<rparr>)
            else if x \<le> c_pos a \<and> x + len > c_pos a + 1
            then del_loop a p (j + 1) len (x + 1, if x > skip_to then x + len else skip_to, tb)
            else del_loop a p (j + 1) len (x + 1, skip_to, tb))
      else (x, skip_to, tb))"
  by pat_completeness auto
termination
  by (relation "measure (\<lambda>(a, p, j, len, st). nat (len - j))") auto
declare del_loop.simps [simp del]

text \<open>
  The state of the scan of one read: \<open>x\<close>, \<open>y\<close>, \<open>local_band\<close>, \<open>local_band_max\<close> and
  the tables; and one CIGAR operation. The loop of an insertion leaves \<open>x\<close> as it is, so
  its effect is written in closed form: \<open>y\<close> advances by \<open>len\<close> unless \<open>x >= right\<close>, and
  inside the window the first \<open>min(len, 1024)\<close> bases are the insertion.
\<close>

record scan =
  s_x :: int
  s_y :: int
  s_local_band :: int
  s_band_max :: int
  s_tabs :: freq_tables

definition cigar_step :: "cons_args \<Rightarrow> (nat \<Rightarrow> int) \<Rightarrow> read \<Rightarrow> cigar_op \<times> int \<Rightarrow> scan \<Rightarrow> scan" where
  "cigar_step a nt16 p oplen st =
     (case oplen of (op, len) \<Rightarrow>
      let x = s_x st; y = s_y st; tb = s_tabs st;
          inside = (x \<ge> c_left a \<and> x < c_right a)
      in if op = BAM_CSOFT_CLIP then st\<lparr>s_y := y + len\<rparr>
         else if op = BAM_CMATCH \<or> op = BAM_CEQUAL \<or> op = BAM_CDIFF
         then (case match_loop a nt16 p 0 len (x, y, tb) of
                 (x', y', tb') \<Rightarrow> st\<lparr>s_x := x', s_y := y', s_tabs := tb'\<rparr>)
         else if op = BAM_CINS
         then (let lb = (if inside then s_local_band st + indel p else s_local_band st);
                   bm = (if inside \<and> s_band_max st < lb then lb else s_band_max st);
                   ilen = (if len < 1024 then len else 1024);
                   ins = map nt16 (take (nat ilen) (drop (nat y) (seq p)));
                   y' = (if x \<ge> c_right a then y else if len > 0 then y + len else y);
                   tb' = (if inside
                          then (if indel p = c_type a
                                then tb\<lparr>f_cons_ins := (f_cons_ins tb)
                                        [nat (x - c_left a) :=
                                           bcf_cgp_append_cons (f_cons_ins tb ! nat (x - c_left a)) ins 1]\<rparr>
                                else if x \<noteq> c_pos a + 1
                                then tb\<lparr>f_ref_ins := (f_ref_ins tb)
                                        [nat (x - c_left a) :=
                                           bcf_cgp_append_cons (f_ref_ins tb ! nat (x - c_left a)) ins 1]\<rparr>
                                else tb)
                          else tb)
               in st\<lparr>s_y := y', s_local_band := lb, s_band_max := bm, s_tabs := tb'\<rparr>)
         else if op = BAM_CDEL
         then (let lb = (if inside then s_local_band st + indel p else s_local_band st);
                   bm = (if inside \<and> s_band_max st < - lb then - lb else s_band_max st)
               in case del_loop a p 0 len (x, 0, tb) of
                    (x', skip_to, tb') \<Rightarrow>
                      st\<lparr>s_x := x', s_local_band := lb, s_band_max := bm, s_tabs := tb'\<rparr>)
         else st)"

text \<open>
  One read, from \<open>x = b->core.pos\<close> and \<open>y = 0\<close>, on \<open>(*band, local_band_max, tables)\<close>.
\<close>

definition scan_read :: "cons_args \<Rightarrow> (nat \<Rightarrow> int) \<Rightarrow> read \<Rightarrow> int \<times> int \<times> freq_tables \<Rightarrow> int \<times> int \<times> freq_tables" where
  "scan_read a nt16 p acc =
     (case acc of (band, band_max, tb) \<Rightarrow>
      let st = foldl (\<lambda>st oplen. cigar_step a nt16 p oplen st)
                 \<lparr>s_x = b_pos p, s_y = 0, s_local_band = 0, s_band_max = band_max, s_tabs = tb\<rparr>
                 (cigar p)
      in (if band < s_band_max st then s_band_max st else band, s_band_max st, s_tabs st))"

subsection \<open>Adding depth from the other reads\<close>

text \<open>
  Position \<open>i\<close> of the second loop: \<open>rfract\<close> is
  \<open>max((r - t*2)*.75 / (r+1), 1.01 / (r+1e-10))\<close>; the positions that overlap the indel
  region are left alone.
\<close>

definition blend_pos :: "cons_args \<Rightarrow> int \<Rightarrow> freq_tables \<Rightarrow> freq_tables" where
  "blend_pos a i tb =
     (let cb = f_cons_base tb ! nat i; ci = f_cons_ins tb ! nat i;
          rb = f_ref_base tb ! nat i; ri = f_ref_ins tb ! nat i;
          t = sum_list (take 6 cb) + sum_list (map ins_freq ci);
          r = sum_list (take 6 rb) + sum_list (map ins_freq ri);
          rfract0 = (of_int (r - t * 2) * (75 / 100) / of_int (r + 1) :: rat);
          low = (101 / 100) / (of_int r + 1 / 10 ^ 10 :: rat);
          rfract = (if rfract0 < low then low else rfract0)
      in if i + c_left a \<ge> c_pos a + 1 \<and> i + c_left a < c_pos a + 1 - c_biggest_del a then tb
         else tb\<lparr>f_cons_base := (f_cons_base tb)
                      [nat i := map (\<lambda>(c, v). trunc (of_int c + rfract * of_int v)) (zip (take 6 cb) (take 6 rb))
                                @ drop 6 cb],
                  f_cons_ins := (f_cons_ins tb)
                      [nat i := foldl (\<lambda>sf e. bcf_cgp_append_cons sf (ins_str e)
                                                  (trunc (rfract * of_int (ins_freq e)))) ci ri]\<rparr>)"

function blend_from :: "cons_args \<Rightarrow> int \<Rightarrow> freq_tables \<Rightarrow> freq_tables" where
  "blend_from a i tb =
     (if i < c_right a - c_left a then blend_from a (i + 1) (blend_pos a i tb) else tb)"
  by pat_completeness auto
termination
  by (relation "measure (\<lambda>(a, i, tb). nat (c_right a - c_left a - i))") auto
declare blend_from.simps [simp del]

subsection \<open>The buffer length\<close>

text \<open>
  The longest insertion recorded at one position (the inner loop of the buffer
  computation), and \<open>max_len\<close>: \<open>right - left\<close> plus that maximum at each position
  \<open>i < right - left\<close>.
\<close>

definition longest_ins :: "str_freq \<Rightarrow> int" where
  "longest_ins sf = foldl (\<lambda>ins a. if ins < int (length (ins_str a)) then int (length (ins_str a)) else ins) 0 sf"

function sum_longest :: "str_freq list \<Rightarrow> int \<Rightarrow> int \<Rightarrow> int" where
  "sum_longest cons_ins i n =
     (if i < n then longest_ins (cons_ins ! nat i) + sum_longest cons_ins (i + 1) n else 0)"
  by pat_completeness auto
termination
  by (relation "measure (\<lambda>(cons_ins, i, n). nat (n - i))") auto
declare sum_longest.simps [simp del]

definition consensus_max_len :: "str_freq list \<Rightarrow> int \<Rightarrow> int \<Rightarrow> int" where
  "consensus_max_len cons_ins left right = (right - left) + sum_longest cons_ins 0 (right - left)"

subsection \<open>Merging insertions of the same length\<close>

text \<open>
  \<open>column grp l\<close> holds the five counters \<open>ins[l][0..4]\<close> of the group \<open>grp\<close> of insertions
  of one length, and \<open>vote\<close> the base written to \<open>str[j][l]\<close>: the first most frequent base
  if it has more than 60 percent, else 4. \<open>merge_from sf j\<close> is the loop over the slots from
  \<open>j\<close> on: slot \<open>j\<close> takes the frequencies of the later slots of its length, which are
  set to 0.
\<close>

fun max_base :: "int list \<Rightarrow> int \<Rightarrow> int \<times> int \<Rightarrow> int \<times> int" where
  "max_base [] b acc = acc"
| "max_base (c # cs) b (max_v, base) =
     max_base cs (b + 1) (if max_v < c then (c, b) else (max_v, base))"

definition vote :: "int list \<Rightarrow> int" where
  "vote cnt =
     (case max_base (take 5 cnt) 0 (0, 0) of (max_v, base) \<Rightarrow>
        if of_int max_v > (6 / 10 :: rat) * of_int (sum_list (take 5 cnt)) then base else 4)"

definition column :: "str_freq \<Rightarrow> nat \<Rightarrow> int list" where
  "column grp l =
     map (\<lambda>b. sum_list (map (\<lambda>e. if ins_str e ! l = b then ins_freq e else 0) grp)) [0, 1, 2, 3, 4]"

function merge_from :: "str_freq \<Rightarrow> nat \<Rightarrow> str_freq" where
  "merge_from sf j =
     (if j < length sf
      then (if ins_freq (sf ! j) = 0 then merge_from sf (j + 1)
            else
              let e = sf ! j;
                  same = (\<lambda>k. k > j \<and> length (ins_str (sf ! k)) = length (ins_str e)
                                 \<and> ins_freq (sf ! k) \<noteq> 0);
                  grp = e # map (\<lambda>k. sf ! k) (filter same [0 ..< length sf]);
                  e' = \<lparr>ins_str = map (\<lambda>l. vote (column grp l)) [0 ..< length (ins_str e)],
                        ins_freq = sum_list (map ins_freq grp)\<rparr>;
                  sf' = map (\<lambda>k. if k = j then e' else if same k then (sf ! k)\<lparr>ins_freq := 0\<rparr> else sf ! k)
                          [0 ..< length sf]
              in merge_from sf' (j + 1))
      else sf)"
  by pat_completeness auto
termination
  by (relation "measure (\<lambda>(sf, j). length sf - j)") auto
declare merge_from.simps [simp del]

subsection \<open>The consensus walk\<close>

text \<open>The table \<open>base6\<close>: ASCII \<open>ACGTN*\<close> to 0 .. 5.\<close>

definition base6 :: "char \<Rightarrow> int" where
  "base6 c =
     (if c = CHR ''A'' \<or> c = CHR ''a'' then 0
      else if c = CHR ''C'' \<or> c = CHR ''c'' then 1
      else if c = CHR ''G'' \<or> c = CHR ''g'' then 2
      else if c = CHR ''T'' \<or> c = CHR ''t'' \<or> c = CHR ''U'' \<or> c = CHR ''u'' then 3
      else if c = CHR ''*'' then 5
      else 4)"

text \<open>
  The two best calls of one position: the loop over \<open>j < 6\<close> on
  \<open>(max_v, max_v2, max_j, max_j2, tot)\<close>, started at \<open>(0, 0, 4, 4, 0)\<close>.
\<close>

fun top2 :: "int list \<Rightarrow> int \<Rightarrow> int \<times> int \<times> int \<times> int \<times> int \<Rightarrow> int \<times> int \<times> int \<times> int \<times> int" where
  "top2 [] j acc = acc"
| "top2 (c # cs) j (max_v, max_v2, max_j, max_j2, tot) =
     top2 cs (j + 1)
       (if max_v < c then (c, max_v, j, max_j, tot + c)
        else if max_v2 < c then (max_v, c, max_j, j, tot + c)
        else (max_v, max_v2, max_j, max_j2, tot + c))"

text \<open>The most frequent insertion of a position: \<open>(max_v_ins, max_j_ins, tot_ins)\<close>.\<close>

fun top_ins :: "str_freq \<Rightarrow> nat \<Rightarrow> int \<times> nat \<times> int \<Rightarrow> int \<times> nat \<times> int" where
  "top_ins [] j acc = acc"
| "top_ins (a # as) j (max_v_ins, max_j_ins, tot_ins) =
     top_ins as (j + 1)
       (if ins_freq a = 0 then (max_v_ins, max_j_ins, tot_ins)
        else if max_v_ins < ins_freq a then (ins_freq a, j, tot_ins + ins_freq a)
        else (max_v_ins, max_j_ins, tot_ins + ins_freq a))"

text \<open>
  The state of the walk: the consensus written so far (\<open>k\<close> is its length), the shift
  counters, \<open>cpos_pos\<close> and the arrays \<open>heti\<close> and \<open>hetd\<close> (read and written below index
  1024 only).
\<close>

record walk =
  cons :: "int list"
  left_shift :: int
  right_shift :: int
  cpos_pos :: int
  heti :: "int \<Rightarrow> int"
  hetd :: "int \<Rightarrow> int"

text \<open>
  The insertion of \<open>n\<close> bases: with \<open>cnum = 0\<close> each base moves \<open>left_shift\<close> or
  \<open>right_shift\<close> by one, by the position \<open>k\<close> it is written at.
\<close>

fun put_ins :: "cons_args \<Rightarrow> nat \<Rightarrow> int list \<Rightarrow> walk \<Rightarrow> walk" where
  "put_ins a cnum [] w = w"
| "put_ins a cnum (b # bs) w =
     put_ins a cnum bs
       (if cnum = 0
        then (if int (length (cons w)) < c_pos a - c_left a + left_shift w
              then w\<lparr>cons := cons w @ [b], left_shift := left_shift w + 1\<rparr>
              else w\<lparr>cons := cons w @ [b], right_shift := right_shift w + 1\<rparr>)
        else w\<lparr>cons := cons w @ [b]\<rparr>)"

text \<open>
  One position \<open>i\<close> of the walk for consensus \<open>cnum\<close>, in the three steps of the loop
  body. The cut-offs .30, .40, .60 and .80 are compared exactly. First the position of the
  indel in the consensus is recorded once.
\<close>

definition note_cpos :: "cons_args \<Rightarrow> int \<Rightarrow> walk \<Rightarrow> walk" where
  "note_cpos a i w =
     (if i \<ge> c_pos a - c_left a + 1 \<and> cpos_pos w = -1
      then w\<lparr>cpos_pos := int (length (cons w))\<rparr> else w)"

text \<open>
  The insertion before position \<open>i\<close>, over \<open>ci = cons_ins[i]\<close> and the depth \<open>tot\<close> of the
  position: always for the insertion under test or one above 80 percent, heterozygous
  otherwise.
\<close>

definition call_ins :: "cons_args \<Rightarrow> nat \<Rightarrow> int \<Rightarrow> int \<Rightarrow> str_freq \<Rightarrow> walk \<Rightarrow> walk" where
  "call_ins a cnum i tot ci w =
     (case top_ins ci 0 (0, 0, 0) of (max_v_ins, max_j_ins, tot_ins) \<Rightarrow>
      let always_ins = ((i = c_pos a - c_left a + 1 \<and> c_type a > 0)
                        \<or> of_int max_v_ins > (8 / 10 :: rat) * of_int tot);
          cand_ins = (if always_ins then False else max_v_ins \<ge> c_min_support a);
          het_ins = (if cand_ins
                     then (if cnum = 0 then of_int max_v_ins > (4 / 10 :: rat) * of_int tot
                           else (if i < 1024 then heti w i = -1 else False))
                     else False);
          w2 = (if cand_ins \<and> cnum = 0 \<and> i < 1024
                then w\<lparr>heti := (heti w)
                        (i := (if het_ins then 1
                               else if of_int max_v_ins > (3 / 10 :: rat) * of_int tot then -1
                               else 0))\<rparr>
                else w);
          ins = (if max_j_ins < length ci then ins_str (ci ! max_j_ins) else [])
      in if always_ins \<or> het_ins
         then (if of_int max_v_ins > (6 / 10 :: rat) * of_int tot_ins
               then put_ins a cnum ins w2
               else w2\<lparr>cons := cons w2 @ replicate (length ins) 4\<rparr>)
         else w2)"

text \<open>
  The deletion or the base of position \<open>i\<close>, over \<open>cb = cons_base[i]\<close> and its two best
  calls.
\<close>

definition call_base ::
  "cons_args \<Rightarrow> nat \<Rightarrow> int \<Rightarrow> int list \<Rightarrow> int \<times> int \<times> int \<times> int \<times> int \<Rightarrow> walk \<Rightarrow> walk" where
  "call_base a cnum i cb best w =
     (case best of (max_v, max_v2, max_j, max_j2, tot) \<Rightarrow>
      let c5 = cb ! 5;
          always_del = ((c_type a < 0 \<and> i > c_pos a - c_left a \<and> i \<le> c_pos a - c_left a - c_type a)
                        \<or> of_int c5 > (8 / 10 :: rat) * of_int tot);
          cand_del = (if always_del then False else c5 \<ge> c_min_support a);
          het_del = (if cand_del
                     then (if cnum = 0 then of_int c5 \<ge> (4 / 10 :: rat) * of_int tot
                           else (if i < 1024 then hetd w i = -1 else False))
                     else False);
          w4 = (if cand_del \<and> cnum = 0 \<and> i < 1024
                then w\<lparr>hetd := (hetd w)
                        (i := (if i > c_pos a - c_left a \<and> i \<le> c_pos a - c_left a - c_biggest_del a
                               then 0
                               else if het_del then 1
                               else if of_int c5 \<ge> (3 / 10 :: rat) * of_int tot then -1
                               else 0))\<rparr>
                else w);
          swap = (cand_del \<and> cnum \<noteq> 0 \<and> max_j = 5 \<and> het_del = False);
          max_v' = (if swap then max_v2 else max_v);
          max_j' = (if swap then max_j2 else max_j);
          k = int (length (cons w4))
      in if always_del \<or> het_del
         then (if k < c_pos a - c_left a + left_shift w4
               then w4\<lparr>left_shift := left_shift w4 - 1\<rparr>
               else w4\<lparr>right_shift := right_shift w4 + 1\<rparr>)
         else if of_int max_v' > (4 / 10 :: rat) * of_int tot
         then w4\<lparr>cons := cons w4 @ [max_j']\<rparr>
         else if max_v' > 0
         then w4\<lparr>cons := cons w4 @ [4]\<rparr>
         else w4\<lparr>cons := cons w4 @
                  [if c_left a + k < c_ref_len a then base6 (ref_at (c_ref a) (c_left a + k)) else 4]\<rparr>)"

definition walk_pos :: "cons_args \<Rightarrow> nat \<Rightarrow> int \<Rightarrow> int list \<Rightarrow> str_freq \<Rightarrow> walk \<Rightarrow> walk" where
  "walk_pos a cnum i cb ci w =
     (let best = top2 cb 0 (0, 0, 4, 4, 0)
      in case best of (max_v, max_v2, max_j, max_j2, tot) \<Rightarrow>
           call_base a cnum i cb best (call_ins a cnum i tot ci (note_cpos a i w)))"

text \<open>\<open>for (i = k = 0; i < right-left; i++)\<close> from position \<open>i\<close> on.\<close>

function walk_from :: "cons_args \<Rightarrow> nat \<Rightarrow> int list list \<Rightarrow> str_freq list \<Rightarrow> int \<Rightarrow> walk \<Rightarrow> walk" where
  "walk_from a cnum cons_base cons_ins i w =
     (if i < c_right a - c_left a
      then walk_from a cnum cons_base cons_ins (i + 1)
             (walk_pos a cnum i (cons_base ! nat i) (cons_ins ! nat i) w)
      else w)"
  by pat_completeness auto
termination
  by (relation "measure (\<lambda>(a, cnum, cons_base, cons_ins, i, w). nat (c_right a - c_left a - i))") auto
declare walk_from.simps [simp del]

text \<open>
  The two passes \<open>cnum = 0, 1\<close> over the frequency tables: the result is \<open>cons[0]\<close>,
  \<open>cons[1]\<close> (\<open>tcon_len[cnum]\<close> is the length of each) and the final state, which holds
  \<open>left_shift\<close>, \<open>right_shift\<close> and \<open>cpos_pos\<close>.
\<close>

definition consensus_walk :: "cons_args \<Rightarrow> int list list \<Rightarrow> str_freq list \<Rightarrow> int list \<times> int list \<times> walk" where
  "consensus_walk a cons_base cons_ins =
     (let w0 = walk_from a 0 cons_base cons_ins 0
                 \<lparr>cons = [], left_shift = 0, right_shift = 0, cpos_pos = -1,
                  heti = (\<lambda>i. 0), hetd = (\<lambda>i. 0)\<rparr>;
          w1 = walk_from a 1 cons_base cons_ins 0 (w0\<lparr>cons := []\<rparr>)
      in (cons w0, cons w1, w1))"

subsection \<open>The whole function\<close>

text \<open>
  The result of \<open>bcf_cgp_consensus\<close>: the two sequences \<open>cons[0]\<close> and \<open>cons[1]\<close>
  (\<open>tcon_len\<close> holds their lengths), the values stored through \<open>left_shift\<close>,
  \<open>right_shift\<close>, \<open>band\<close> and \<open>cpos_pos\<close>, and \<open>max_len\<close>, the length each of the two
  buffers is allocated for. \<open>None\<close> is the null pointer returned when an allocation fails
  (\<open>mem_ok\<close> is false).
\<close>

record consensus =
  tcons0 :: "int list"
  tcons1 :: "int list"
  r_left_shift :: int
  r_right_shift :: int
  r_band :: int
  r_cpos_pos :: int
  r_max_len :: int

definition consensus_tables :: "cons_args \<Rightarrow> (nat \<Rightarrow> int) \<Rightarrow> read list \<Rightarrow> int \<Rightarrow> int \<times> freq_tables" where
  "consensus_tables a nt16 smp band =
     (let n = nat (c_right a - c_left a + 1);
          tb0 = \<lparr>f_cons_base = replicate n (replicate 6 0), f_cons_ins = replicate n [],
                 f_ref_base = replicate n (replicate 6 0), f_ref_ins = replicate n []\<rparr>
      in case foldl (\<lambda>acc p. scan_read a nt16 p acc) (band, 0, tb0) smp of
           (band', band_max, tb) \<Rightarrow> (band', blend_from a 0 tb))"

definition consensus_args ::
  "int \<Rightarrow> bcf_callaux \<Rightarrow> string \<Rightarrow> int \<Rightarrow> int \<Rightarrow> int \<Rightarrow> int \<Rightarrow> int \<Rightarrow> cons_args" where
  "consensus_args ps bca rf ref_len left right typ biggest_del =
     \<lparr>c_pos = ps, c_left = left, c_right = right, c_type = typ, c_biggest_del = biggest_del,
      c_ref = rf, c_ref_len = ref_len, c_min_support = min_support bca\<rparr>"

definition bcf_cgp_consensus ::
  "bool \<Rightarrow> (nat \<Rightarrow> int) \<Rightarrow> read list \<Rightarrow> int \<Rightarrow> bcf_callaux \<Rightarrow> string \<Rightarrow> int \<Rightarrow> int \<Rightarrow> int \<Rightarrow>
   int \<Rightarrow> int \<Rightarrow> int \<Rightarrow> consensus option" where
  "bcf_cgp_consensus mem_ok nt16 smp ps bca rf ref_len left right typ biggest_del band =
     (if \<not> mem_ok then None
      else
        let a = consensus_args ps bca rf ref_len left right typ biggest_del
        in case consensus_tables a nt16 smp band of
             (band', tb) \<Rightarrow>
               (case consensus_walk a (f_cons_base tb) (map (\<lambda>sf. merge_from sf 0) (f_cons_ins tb)) of
                  (c0, c1, w) \<Rightarrow>
                    Some \<lparr>tcons0 = c0, tcons1 = c1, r_left_shift = left_shift w,
                          r_right_shift = right_shift w, r_band = band', r_cpos_pos = cpos_pos w,
                          r_max_len = consensus_max_len (f_cons_ins tb) left right\<rparr>))"

text \<open>\<open>max_ins = types[n_types - 1]\<close>, the largest candidate insertion size.\<close>

definition max_ins_of :: "int list \<Rightarrow> int" where
  "max_ins_of types = last types"

section \<open>edlib\_glocal and the choice between the two alignments\<close>

text \<open>
  \<open>EdlibAlignResult\<close> as \<open>edlib_glocal\<close> reads it: \<open>endLocations\<close> and \<open>startLocations\<close>
  are \<open>None\<close> for a null pointer and otherwise hold the first location. \<open>edlibAlign\<close> itself
  belongs to the edlib library and is a parameter: a function of the query and the target.
\<close>

record edlib_result =
  status_ok :: bool
  numLocations :: int
  endLocations :: "int option"
  startLocations :: "int option"
  editDistance :: int

definition INT_MAX :: int where
  "INT_MAX = 2147483647"

definition edlib_glocal ::
  "(int list \<Rightarrow> int list \<Rightarrow> edlib_result) \<Rightarrow> int list \<Rightarrow> int list \<Rightarrow> rat \<Rightarrow> rat \<Rightarrow> int" where
  "edlib_glocal edlibAlign rf query m del_bias =
     (let r = edlibAlign query rf
      in case (endLocations r, startLocations r) of
           (Some e, Some b) \<Rightarrow>
             if status_ok r \<and> numLocations r \<ge> 1
             then (let t_len = e - b + 1
                   in trunc (m * (of_int (editDistance r)
                                  - del_bias * of_int (t_len - int (length query)))))
             else INT_MAX
         | _ \<Rightarrow> INT_MAX)"

text \<open>
  Lines 1185 to 1199 of \<open>bcf_cgp_align_score\<close>: \<open>None\<close> is the branch that stores
  \<open>0xffffff\<close> and returns; otherwise the value of \<open>sc2\<close> after the choice.
\<close>

definition best_of_two :: "int \<Rightarrow> int \<Rightarrow> int option" where
  "best_of_two sc1 sc2 =
     (if sc1 < 0 \<and> sc2 < 0 then None
      else if sc1 < 0 then Some sc2
      else if sc2 < 0 then Some sc1
      else if sc2 > sc1 then Some sc1
      else Some sc2)"

text \<open>
  The end of \<open>bcf_cgp_align_score\<close>, from the two calls of \<open>edlib_glocal\<close> on: \<open>seg1\<close> and
  \<open>seg2\<close> are the trimmed targets \<open>ref1 + tbeg - left\<close> (length \<open>tend1 - tbeg\<close>) and
  \<open>ref2 + tbeg - left\<close> (length \<open>tend2 - tbeg\<close>), \<open>query\<close> has length \<open>qend - qbeg\<close>, and
  \<open>iscore\<close>, \<open>m2\<close>, \<open>m2min\<close> are the repeat score and the qualities computed before. The
  stored \<open>*score\<close> is a 32-bit \<open>int\<close>.
\<close>

definition align_score_end ::
  "(int list \<Rightarrow> int list \<Rightarrow> edlib_result) \<Rightarrow> rat \<Rightarrow> int list \<Rightarrow> int list \<Rightarrow> int list \<Rightarrow>
   int \<Rightarrow> rat \<Rightarrow> int \<Rightarrow> rat \<Rightarrow> rat \<Rightarrow> int" where
  "align_score_end edlibAlign indel_bias seg1 seg2 query iscore m2 m2min qavg del_bias =
     (let m = (if 30 < m2min then 30 else m2min);
          mm = (of_int m :: rat);
          sc2 = edlib_glocal edlibAlign seg2 query mm del_bias;
          sc1 = (if seg1 \<noteq> seg2 then edlib_glocal edlibAlign seg1 query mm del_bias else INT_MAX)
      in case best_of_two sc1 sc2 of
           None \<Rightarrow> 0xffffff
         | Some sc \<Rightarrow>
             let l0 = trunc ((1 / 2) * (100 * of_int sc / of_int (int (length query)) + 499 / 1000));
                 l = trunc (of_int l0 + of_int iscore * (qavg / (of_int m2min + 1) + qavg / m2));
                 low = trunc (min 255 (of_int l * indel_bias / 10))
             in i32 (push_bit 8 sc OR low))"

section \<open>bcf\_cgp\_compute\_indelQ\<close>

text \<open>
  The insertion sort of the source: \<open>ins_back lt ys x\<close> is the inner loop
  \<open>for (j = t; j > 0 && lt(sc[j], sc[j-1]); --j) swap\<close> on the sorted prefix \<open>ys\<close> and the
  next element \<open>x\<close>.
\<close>

function ins_back :: "(int \<Rightarrow> int \<Rightarrow> bool) \<Rightarrow> int list \<Rightarrow> int \<Rightarrow> int list" where
  "ins_back lt ys x =
     (if ys \<noteq> [] \<and> lt x (last ys) then ins_back lt (butlast ys) x @ [last ys] else ys @ [x])"
  by pat_completeness auto
termination
  by (relation "measure (\<lambda>(lt, ys, x). length ys)") auto
declare ins_back.simps [simp del]

definition insertion_sort :: "(int \<Rightarrow> int \<Rightarrow> bool) \<Rightarrow> int list \<Rightarrow> int list" where
  "insertion_sort lt xs = foldl (ins_back lt) [] xs"

text \<open>\<open>for (t = 0; t < n_types; ++t) if ((sc[t]&0x3f) == ref_type) break;\<close>\<close>

definition find_ref_slot :: "int list \<Rightarrow> int \<Rightarrow> nat" where
  "find_ref_slot sc ref_type = length (takeWhile (\<lambda>v. v AND 0x3f \<noteq> ref_type) sc)"

text \<open>The two scans of the homopolymer around \<open>qpos\<close> for the minimum quality.\<close>

function scan_left :: "read \<Rightarrow> nat \<Rightarrow> int \<Rightarrow> int \<Rightarrow> int" where
  "scan_left p baseL l min_q =
     (if l \<ge> 0
      then (if seq p ! nat l \<noteq> baseL then min_q
            else scan_left p baseL (l - 1) (if min_q > qual p ! nat l then qual p ! nat l else min_q))
      else min_q)"
  by pat_completeness auto
termination
  by (relation "measure (\<lambda>(p, baseL, l, min_q). nat (l + 1))") auto
declare scan_left.simps [simp del]

function scan_right :: "read \<Rightarrow> nat \<Rightarrow> int \<Rightarrow> int \<Rightarrow> int" where
  "scan_right p base l min_q =
     (if l < int (length (seq p))
      then (let mq = (if min_q > qual p ! nat l then qual p ! nat l else min_q)
            in if seq p ! nat l \<noteq> base then mq else scan_right p base (l + 1) mq)
      else min_q)"
  by pat_completeness auto
termination
  by (relation "measure (\<lambda>(p, base, l, min_q). nat (int (length (seq p)) - l))") auto
declare scan_right.simps [simp del]

definition homopolymer_min_q :: "read \<Rightarrow> int" where
  "homopolymer_min_q p =
     (let baseL = seq p ! nat (if qpos p + 1 < int (length (seq p)) then qpos p + 1 else qpos p);
          mq = scan_left p baseL (qpos p) (qual p ! nat (qpos p))
      in scan_right p (seq p ! nat (qpos p + 1)) (qpos p + 1) mq)"

text \<open>
  The body of the first loop for one read \<open>p\<close> with its scores \<open>sct = &score[K*n_types]\<close>:
  the value stored in \<open>p->aux\<close>, the type \<open>sc[0]&0x3f\<close> and the \<open>indelQ\<close> added to its
  \<open>sumq\<close>.
\<close>

definition annotate_read ::
  "bcf_callaux \<Rightarrow> int \<Rightarrow> int \<Rightarrow> int list \<Rightarrow> rat \<Rightarrow> int \<Rightarrow> int list \<Rightarrow> read \<Rightarrow> int \<times> int \<times> int" where
  "annotate_read bca l_run ref_type types qavg str_len1 sct p =
     (let sc = insertion_sort (<) (map (\<lambda>(t, v). push_bit 6 v OR int t) (enumerate 0 sct));
          best = sc ! 0 AND 0x3f;
          indelQ0 = (if best = ref_type then drop_bit 14 (sc ! 1) - drop_bit 14 (sc ! 0)
                     else drop_bit 14 (sc ! find_ref_slot sc ref_type) - drop_bit 14 (sc ! 0));
          seqQ0 = (if best = ref_type
                   then est_seqQ bca (types ! nat (sc ! 1 AND 0x3f)) l_run str_len1
                   else est_seqQ bca (types ! nat best) l_run str_len1);
          min_q = (of_int (homopolymer_min_q p) :: rat);
          seqQ1 = (if poly_mqual bca
                   then max 0 (trunc (of_int seqQ0 + min (qavg / 20) (min_q - qavg / 10)))
                   else seqQ0);
          indelQ1 = (if poly_mqual bca
                     then max 0 (trunc (of_int indelQ0 + min (qavg / 20) (min_q - qavg / 5)))
                     else indelQ0);
          tmp = drop_bit 6 (sc ! 0) AND 0xff;
          indelQ2 = (if tmp > 111 then 0
                     else trunc ((1 - of_int tmp / 111) * of_int indelQ1 + 499 / 1000));
          indelQ3 = (if indelQ2 > seqQ1 then seqQ1 else indelQ2);
          indelQ4 = (if indelQ3 > 255 then 255 else indelQ3);
          seqQ2 = (if seqQ1 > 255 then 255 else seqQ1)
      in (pack_aux best seqQ2 indelQ4, best, indelQ4))"

text \<open>
  The first loop over one sample and over all samples: \<open>K\<close> counts the reads and \<open>sumq\<close>
  collects \<open>indelQ\<close> by type.
\<close>

fun annotate_reads ::
  "bcf_callaux \<Rightarrow> int \<Rightarrow> int \<Rightarrow> int list \<Rightarrow> rat \<Rightarrow> int \<Rightarrow> int list \<Rightarrow>
   read list \<Rightarrow> nat \<times> int list \<Rightarrow> read list \<times> nat \<times> int list" where
  "annotate_reads bca l_run ref_type types qavg str_len1 score [] (K, sumq) = ([], K, sumq)"
| "annotate_reads bca l_run ref_type types qavg str_len1 score (p # ps) (K, sumq) =
     (case annotate_read bca l_run ref_type types qavg str_len1
             (take (length types) (drop (K * length types) score)) p of
        (a, best, indelQ) \<Rightarrow>
          (case annotate_reads bca l_run ref_type types qavg str_len1 score ps
                  (K + 1, sumq[nat best := sumq ! nat best + indelQ]) of
             (ps', K', sumq') \<Rightarrow> (p\<lparr>aux := a\<rparr> # ps', K', sumq')))"

fun annotate_samples ::
  "bcf_callaux \<Rightarrow> int \<Rightarrow> int \<Rightarrow> int list \<Rightarrow> rat \<Rightarrow> int \<Rightarrow> int list \<Rightarrow>
   read list list \<Rightarrow> nat \<times> int list \<Rightarrow> read list list \<times> nat \<times> int list" where
  "annotate_samples bca l_run ref_type types qavg str_len1 score [] (K, sumq) = ([], K, sumq)"
| "annotate_samples bca l_run ref_type types qavg str_len1 score (smp # rest) (K, sumq) =
     (case annotate_reads bca l_run ref_type types qavg str_len1 score smp (K, sumq) of
        (smp', K', sumq') \<Rightarrow>
          (case annotate_samples bca l_run ref_type types qavg str_len1 score rest (K', sumq') of
             (rest', K'', sumq'') \<Rightarrow> (smp' # rest', K'', sumq'')))"

text \<open>
  The chosen types: \<open>sumq[t] = sumq[t]<<6 | t\<close>, the descending insertion sort, and the
  reference type moved to the first place.
\<close>

definition rank_types :: "int list \<Rightarrow> int \<Rightarrow> int list" where
  "rank_types sumq ref_type =
     (let sq = insertion_sort (>) (map (\<lambda>(t, v). push_bit 6 v OR int t) (enumerate 0 sumq));
          t = length (takeWhile (\<lambda>v. v AND 0x3f \<noteq> ref_type) sq)
      in if t \<noteq> 0 then (sq ! t) # take t sq @ drop (Suc t) sq else sq)"

text \<open>\<open>memcpy(&dst[doff], &src[soff], n)\<close> on buffers as lists.\<close>

definition memcpy :: "int list \<Rightarrow> nat \<Rightarrow> int list \<Rightarrow> nat \<Rightarrow> nat \<Rightarrow> int list" where
  "memcpy dst doff src soff n = take doff dst @ take n (drop soff src) @ drop (doff + n) dst"

text \<open>
  The loop \<open>for (t = 0; t < 4 && t < n_types; ++t)\<close> that fills \<open>bca->indel_types\<close> and
  \<open>bca->inscns\<close>.
\<close>

function fill_types :: "int list \<Rightarrow> int list \<Rightarrow> int list \<Rightarrow> nat \<Rightarrow> nat \<Rightarrow> int list \<times> int list \<Rightarrow> int list \<times> int list" where
  "fill_types types sq inscns_in mi t (its, buf) =
     (if t < 4 \<and> t < length types
      then fill_types types sq inscns_in mi (Suc t)
             (its[t := types ! nat (sq ! t AND 0x3f)],
              if mi \<noteq> 0 then memcpy buf (t * mi) inscns_in (nat (sq ! t AND 0x3f) * mi) mi else buf)
      else (its, buf))"
  by pat_completeness auto
termination
  by (relation "measure (\<lambda>(types, sq, inscns_in, mi, t, acc). 4 - t)") auto
declare fill_types.simps [simp del]

text \<open>
  The last loop, for one read: \<open>x = types[p->aux>>16&0x3f]\<close>, \<open>j\<close> is the first of the
  four slots of \<open>indel_types\<close> that holds \<open>x\<close>, or 4. \<open>count_alt\<close> is \<open>n_alt\<close>: the
  number of reads with \<open>(p->aux>>16&0x3f) > 0\<close> afterwards.
\<close>

definition remap_read :: "int list \<Rightarrow> int list \<Rightarrow> read \<Rightarrow> read" where
  "remap_read types its p =
     (let x = types ! nat (aux_call (aux p));
          j = int (length (takeWhile (\<lambda>v. v \<noteq> x) (take 4 its)))
      in p\<lparr>aux := push_bit 16 j OR (if j = 4 then 0 else aux p AND 0xffff)\<rparr>)"

definition count_alt :: "read list list \<Rightarrow> int" where
  "count_alt plp = sum_list (map (\<lambda>smp. int (length (filter (\<lambda>p. aux_call (aux p) > 0) smp))) plp)"

text \<open>
  \<open>bcf_cgp_compute_indelQ\<close>: the value returned (\<open>n_alt\<close>, or \<open>-1\<close> when \<open>realloc\<close> fails),
  the reads with their annotation and \<open>bca\<close> as the call leaves them. \<open>null_type\<close> is the
  value of the macro \<open>B2B_INDEL_NULL\<close>, which the header bam2bcf.h defines.
\<close>

definition bcf_cgp_compute_indelQ ::
  "allocs \<Rightarrow> int \<Rightarrow> read list list \<Rightarrow> bcf_callaux \<Rightarrow> int list \<Rightarrow> int \<Rightarrow> int \<Rightarrow> int \<Rightarrow>
   int list \<Rightarrow> rat \<Rightarrow> int list \<Rightarrow> int \<Rightarrow> int \<Rightarrow> int \<times> read list list \<times> bcf_callaux" where
  "bcf_cgp_compute_indelQ al null_type plp bca inscns_in l_run max_ins ref_type types qavg score
       str_len1 str_len2 =
     (case annotate_samples bca l_run ref_type types qavg str_len1 score plp
             (0, replicate (length types) 0) of
        (plp1, K, sumq) \<Rightarrow>
          if max_ins \<noteq> 0 \<and> \<not> realloc_inscns al
          then (-1, plp1, bca\<lparr>maxins := max_ins, inscns := []\<rparr>)
          else
            let buf0 = take (nat (max_ins * 4)) (inscns bca @ replicate (nat (max_ins * 4)) 0);
                sq = rank_types sumq ref_type
            in case fill_types types sq inscns_in (nat max_ins) 0 (replicate 4 null_type, buf0) of
                 (its, buf) \<Rightarrow>
                   let plp2 = map (map (remap_read types its)) plp1
                   in (count_alt plp2, plp2,
                       bca\<lparr>maxins := max_ins, inscns := buf, indel_types := its\<rparr>))"

section \<open>bcf\_edlib\_gap\_prep\<close>

text \<open>
  The average base quality \<open>qavg = (qsum+1) / (qcount+1)\<close> over the window of 50 bases on
  each side of \<open>qpos\<close> in every read.
\<close>

definition qual_window :: "read \<Rightarrow> int list" where
  "qual_window p =
     (let kstart = (if qpos p - 50 > 0 then qpos p - 50 else 0);
          kend = (if qpos p + 50 < int (length (seq p)) then qpos p + 50 else int (length (seq p)))
      in take (nat (kend - kstart)) (drop (nat kstart) (qual p)))"

definition site_qavg :: "read list list \<Rightarrow> rat" where
  "site_qavg plp =
     (let ws = concat (map qual_window (concat plp))
      in (of_int (sum_list ws) + 1) / (of_int (int (length ws)) + 1))"

text \<open>
  Between type discovery and calibration (lines 1465 to 1766) the function fixes the
  window and, for every type and sample, builds the consensus and realigns the reads. These
  stages call collaborators that are not part of this file (\<open>bcf_cgp_l_run\<close>,
  \<open>est_indelreg\<close>, \<open>bcf_cgp_calc_cons\<close>, \<open>get_pos\<close>, \<open>tpos2qpos\<close>, \<open>find_STR\<close>,
  \<open>edlibAlign\<close>); of the state modelled here they assign \<open>bca->indelreg\<close> only (and never
  \<open>p->aux\<close>, \<open>bca->indel_types\<close>, \<open>bca->inscns\<close> or \<open>bca->maxins\<close>). Their outcome is a
  parameter of the model: the allocation of the insertion consensus fails (\<open>return -1\<close>), an
  alignment fails to allocate (\<open>goto err\<close>), or the scores are complete.
\<close>

record realigned =
  r_inscns :: "int list"
  r_l_run :: int
  r_score :: "int list"
  r_str_len1 :: int
  r_str_len2 :: int
  r_indelreg :: int

datatype realign_outcome =
    Ins_cons_failed
  | Align_failed int
  | Realigned realigned

text \<open>Where a call of \<open>bcf_edlib_gap_prep\<close> ends.\<close>

datatype exit_path =
    Null_argument
  | No_indel
  | No_types
  | Ins_cons_alloc
  | Align_alloc
  | Calibrated int

definition gap_prep_run ::
  "allocs \<Rightarrow> int \<Rightarrow> (read list list \<Rightarrow> bcf_callaux \<Rightarrow> found \<Rightarrow> rat \<Rightarrow> realign_outcome) \<Rightarrow>
   read list list \<Rightarrow> int \<Rightarrow> bcf_callaux option \<Rightarrow> string option \<Rightarrow> int \<Rightarrow>
   exit_path \<times> read list list \<times> bcf_callaux option" where
  "gap_prep_run al null_type realign plp ps bca_opt ref_opt ref_len =
     (case (ref_opt, bca_opt) of
        (Some rf, Some bca) \<Rightarrow>
          if list_all (list_all (\<lambda>p. indel p = 0)) plp then (No_indel, plp, Some bca)
          else
            let qavg = site_qavg plp
            in (case bcf_cgp_find_types al plp ps bca rf of
                  (None, bca1) \<Rightarrow> (No_types, plp, Some bca1)
                | (Some fnd, bca1) \<Rightarrow>
                    (case realign plp bca1 fnd qavg of
                       Ins_cons_failed \<Rightarrow> (Ins_cons_alloc, plp, Some bca1)
                     | Align_failed ir \<Rightarrow> (Align_alloc, plp, Some (bca1\<lparr>indelreg := ir\<rparr>))
                     | Realigned d \<Rightarrow>
                         (case bcf_cgp_compute_indelQ al null_type plp (bca1\<lparr>indelreg := r_indelreg d\<rparr>)
                                 (r_inscns d) (r_l_run d) (max_ins_of (types_r fnd))
                                 (ref_type_r fnd) (types_r fnd) qavg (r_score d)
                                 (r_str_len1 d) (r_str_len2 d) of
                            (n, plp', bca') \<Rightarrow> (Calibrated n, plp', Some bca'))))
      | _ \<Rightarrow> (Null_argument, plp, bca_opt))"

text \<open>The value returned: \<open>n_alt > 0 ? 0 : -1\<close> after the calibrator, \<open>-1\<close> on every other path.\<close>

definition return_code :: "exit_path \<Rightarrow> int" where
  "return_code e = (case e of Calibrated n \<Rightarrow> (if n > 0 then 0 else -1) | _ \<Rightarrow> -1)"

definition bcf_edlib_gap_prep ::
  "allocs \<Rightarrow> int \<Rightarrow> (read list list \<Rightarrow> bcf_callaux \<Rightarrow> found \<Rightarrow> rat \<Rightarrow> realign_outcome) \<Rightarrow>
   read list list \<Rightarrow> int \<Rightarrow> bcf_callaux option \<Rightarrow> string option \<Rightarrow> int \<Rightarrow>
   int \<times> read list list \<times> bcf_callaux option" where
  "bcf_edlib_gap_prep al null_type realign plp ps bca_opt ref_opt ref_len =
     (case gap_prep_run al null_type realign plp ps bca_opt ref_opt ref_len of
        (e, plp', bca') \<Rightarrow> (return_code e, plp', bca'))"

section \<open>A small site\<close>

text \<open>
  Concrete values for the instances below: every allocation succeeds; the penalties are the
  defaults of the caller (\<open>openQ = 40\<close>, \<open>extQ = 20\<close>, \<open>tandemQ = 100\<close>), the four slots of
  \<open>indel_types\<close> hold the null value 10000; a read of two bases with a given indel size; a
  realignment outcome with a given score matrix; an alignment that fails.
\<close>

definition ex_allocs :: allocs where
  "ex_allocs = \<lparr>calloc_aux = True, calloc_types = True, realloc_inscns = True\<rparr>"

definition ex_bca :: bcf_callaux where
  "ex_bca = \<lparr>openQ = 40, extQ = 20, tandemQ = 100, min_support = 1, min_frac = 0,
      per_sample_flt = False, indel_win_size = 110, poly_mqual = False, max_support = 0,
      max_frac = 0, maxins = 0, inscns = [], indel_types = [10000, 10000, 10000, 10000],
      indelreg = 0\<rparr>"

definition ex_read :: "int \<Rightarrow> read" where
  "ex_read d = \<lparr>indel = d, is_del = False, aux = 0, qpos = 0, qlen = 2, b_pos = 0,
      cigar = [(BAM_CMATCH, 2)], seq = [1, 1], qual = [30, 30]\<rparr>"

definition ex_realign :: "int list \<Rightarrow> read list list \<Rightarrow> bcf_callaux \<Rightarrow> found \<Rightarrow> rat \<Rightarrow> realign_outcome" where
  "ex_realign sc plp bca fnd qavg =
     Realigned \<lparr>r_inscns = [7, 7], r_l_run = 1, r_score = sc, r_str_len1 = 1,
                r_str_len2 = 0, r_indelreg = 0\<rparr>"

text \<open>
  A site with five candidate types: four reads with the insertion sizes 1 to 4, and a
  realignment outcome for it (an insertion consensus of \<open>5 * 4\<close> bases).
\<close>

definition ex_realign5 :: "int list \<Rightarrow> read list list \<Rightarrow> bcf_callaux \<Rightarrow> found \<Rightarrow> rat \<Rightarrow> realign_outcome" where
  "ex_realign5 sc plp bca fnd qavg =
     Realigned \<lparr>r_inscns = replicate 20 7, r_l_run = 1, r_score = sc, r_str_len1 = 1,
                r_str_len2 = 0, r_indelreg = 0\<rparr>"

definition ex_score5 :: "int list" where
  "ex_score5 = [1, 0, 1, 1, 1,  0, 256, 256, 256, 256,  0, 256, 256, 256, 256,
                0, 256, 256, 256, 256]"

definition ex_failed :: "int list \<Rightarrow> int list \<Rightarrow> edlib_result" where
  "ex_failed query target =
     \<lparr>status_ok = False, numLocations = 0, endLocations = None, startLocations = None,
      editDistance = - 1\<rparr>"

text \<open>
  The table \<open>seq_nt16_int\<close> of htslib (4-bit base code to 0 .. 4), and a read of a sample
  at the site \<open>pos = 1\<close> of the reference \<open>ACGT\<close>: it matches the reference, has no indel
  at the site and carries the insertion \<open>CG\<close> before position 3 (CIGAR \<open>3M2I1M\<close>).
\<close>

definition seq_nt16_int :: "nat \<Rightarrow> int" where
  "seq_nt16_int c = [4, 0, 1, 4, 2, 4, 4, 4, 3, 4, 4, 4, 4, 4, 4, 4] ! c"

definition ex_ins_read :: read where
  "ex_ins_read = \<lparr>indel = 0, is_del = False, aux = 0, qpos = 1, qlen = 6, b_pos = 0,
      cigar = [(BAM_CMATCH, 3), (BAM_CINS, 2), (BAM_CMATCH, 1)], seq = [1, 2, 4, 2, 4, 8],
      qual = [30, 30, 30, 30, 30, 30]\<rparr>"

section \<open>Properties\<close>

subsection \<open>The packed annotation\<close>

text \<open>
  Claim C5. For an allele index \<open>a\<close> in 0 .. 4 and \<open>seqQ\<close>, \<open>indelQ\<close> in 0 .. 255, packing
  the triple as \<open>(a<<16) | (seqQ<<8) | indelQ\<close> and decoding it with \<open>(code>>16)&0x3f\<close>,
  \<open>(code>>8)&0xff\<close> and \<open>code&0xff\<close> gives the triple back.
\<close>

theorem aux_roundtrip:
  assumes "0 \<le> a" "a \<le> 4" "0 \<le> s" "s \<le> 255" "0 \<le> q" "q \<le> 255"
  shows "aux_call (pack_aux a s q) = a \<and> aux_seqQ (pack_aux a s q) = s \<and>
         aux_indelQ (pack_aux a s q) = q"
proof -
  have a: "take_bit 6 a = a" using assms by (simp add: take_bit_int_eq_self)
  have s: "take_bit 8 s = s" using assms by (simp add: take_bit_int_eq_self)
  have q: "take_bit 8 q = q" using assms by (simp add: take_bit_int_eq_self)
  have m6: "(0x3f::int) = mask 6" by (simp add: mask_eq_exp_minus_1)
  have m8: "(0xff::int) = mask 8" by (simp add: mask_eq_exp_minus_1)
  have "aux_call (pack_aux (take_bit 6 a) (take_bit 8 s) (take_bit 8 q)) = take_bit 6 a"
    unfolding aux_call_def pack_aux_def m6
    by (rule bit_eqI) (auto simp add: bit_simps)
  moreover have "aux_seqQ (pack_aux (take_bit 6 a) (take_bit 8 s) (take_bit 8 q)) = take_bit 8 s"
    unfolding aux_seqQ_def pack_aux_def m8
    by (rule bit_eqI) (auto simp add: bit_simps)
  moreover have "aux_indelQ (pack_aux (take_bit 6 a) (take_bit 8 s) (take_bit 8 q)) = take_bit 8 q"
    unfolding aux_indelQ_def pack_aux_def m8
    by (rule bit_eqI) (auto simp add: bit_simps)
  ultimately show ?thesis by (simp add: a s q)
qed

theorem aux_roundtrip_witness:
  "aux_call (pack_aux 4 200 17) = 4 \<and> aux_seqQ (pack_aux 4 200 17) = 200 \<and>
   aux_indelQ (pack_aux 4 200 17) = 17"
  using aux_roundtrip [of 4 200 17] by simp

subsection \<open>Machine integers\<close>

lemma i32_mod: "i32 x mod 2 ^ 32 = x mod 2 ^ 32"
proof -
  have "(x mod 2 ^ 32 - 2 ^ 32) mod 2 ^ 32 = x mod (2 ^ 32 :: int)"
    by (metis minus_mod_self2 mod_mod_trivial)
  then show ?thesis by (simp add: i32_def Let_def)
qed

lemma i32_id: "- (2 ^ 31) \<le> d \<Longrightarrow> d < 2 ^ 31 \<Longrightarrow> i32 d = d"
proof (cases "0 \<le> d")
  case True
  assume "d < 2 ^ 31"
  with True have "d mod 2 ^ 32 = d" by simp
  then show ?thesis using \<open>d < 2 ^ 31\<close> by (simp add: i32_def Let_def)
next
  case False
  assume l: "- (2 ^ 31) \<le> d"
  have "(d + 2 ^ 32) mod 2 ^ 32 = d + 2 ^ 32" using False l by (intro mod_pos_pos_trivial) auto
  then have "d mod 2 ^ 32 = d + 2 ^ 32" by simp
  then show ?thesis using False l by (simp add: i32_def Let_def)
qed

subsection \<open>est\_seqQ\<close>

lemma trunc_mono: "x \<le> y \<Longrightarrow> trunc x \<le> trunc y"
proof -
  assume xy: "x \<le> y"
  show ?thesis
  proof (cases "0 \<le> x")
    case True
    then show ?thesis using xy by (simp add: trunc_def floor_mono)
  next
    case False
    show ?thesis
    proof (cases "0 \<le> y")
      case True
      have "\<lceil>x\<rceil> \<le> 0" using False by (simp add: ceiling_le_zero)
      moreover have "0 \<le> \<lfloor>y\<rfloor>" using True by simp
      ultimately have "\<lceil>x\<rceil> \<le> \<lfloor>y\<rfloor>" by linarith
      then show ?thesis using False True by (simp add: trunc_def)
    next
      case F2: False
      then show ?thesis using False xy by (simp add: trunc_def ceiling_mono)
    qed
  qed
qed

text \<open>Where nothing leaves the range of \<open>int\<close>, \<open>est_seqQ\<close> is the formula over the integers.\<close>

lemma est_seqQ_in_range:
  assumes "0 \<le> openQ bca" "0 \<le> extQ bca" "0 \<le> tandemQ bca" "1 \<le> r" "seqQ_fits bca l r"
  shows "est_seqQ bca l r s =
     (let q = openQ bca + extQ bca * (\<bar>l\<bar> - 1);
          qh = trunc (of_int (tandemQ bca) * of_int \<bar>l\<bar> / of_int r + 499 / 1000)
      in if q < qh then q else qh)"
proof -
  have f: "\<bar>l\<bar> < 2 ^ 31" "extQ bca < 2 ^ 31" "extQ bca * (\<bar>l\<bar> - 1) < 2 ^ 31"
    "openQ bca + extQ bca * (\<bar>l\<bar> - 1) < 2 ^ 31" "- (2 ^ 31) \<le> openQ bca + extQ bca * (\<bar>l\<bar> - 1)"
    "(of_int (tandemQ bca) * of_int \<bar>l\<bar> / of_int r + 499 / 1000 :: rat) < 2 ^ 31"
    using assms(5) by (simp_all add: seqQ_fits_def)
  have a: "i32 \<bar>l\<bar> = \<bar>l\<bar>" using f(1) by (intro i32_id) auto
  have a1: "i32 (\<bar>l\<bar> - 1) = \<bar>l\<bar> - 1" using f(1) by (intro i32_id) auto
  have "- extQ bca \<le> extQ bca * (\<bar>l\<bar> - 1)"
    using mult_left_mono[of "- 1" "\<bar>l\<bar> - 1" "extQ bca"] assms(2) by simp
  then have e: "i32 (extQ bca * (\<bar>l\<bar> - 1)) = extQ bca * (\<bar>l\<bar> - 1)"
    using f(2,3) by (intro i32_id) auto
  have q: "i32 (openQ bca + extQ bca * (\<bar>l\<bar> - 1)) = openQ bca + extQ bca * (\<bar>l\<bar> - 1)"
    using f(4,5) by (intro i32_id) auto
  have "(0::rat) \<le> of_int (tandemQ bca) * of_int \<bar>l\<bar> / of_int r"
    using assms(3,4) by (intro divide_nonneg_nonneg mult_nonneg_nonneg) auto
  then have h: "d2i (of_int (tandemQ bca) * of_int \<bar>l\<bar> / of_int r + 499 / 1000)
              = trunc (of_int (tandemQ bca) * of_int \<bar>l\<bar> / of_int r + 499 / 1000)"
    using f(6) by (simp add: d2i_def)
  have r0: "r \<noteq> 0" using assms(4) by simp
  show ?thesis unfolding est_seqQ_def Let_def a a1 e q using h r0 by simp
qed

lemma seqQ_fits_run: 
  assumes "0 \<le> tandemQ bca" "1 \<le> r1" "r1 \<le> r2" "seqQ_fits bca l r1"
  shows "seqQ_fits bca l r2"
proof -
  have "(of_int (tandemQ bca) * of_int \<bar>l\<bar> :: rat) / of_int r2 \<le> of_int (tandemQ bca) * of_int \<bar>l\<bar> / of_int r1"
    using assms by (intro divide_left_mono) (auto simp: mult_pos_pos)
  then show ?thesis using assms(4) by (auto simp: seqQ_fits_def)
qed

lemma seqQ_fits_size: 
  assumes "0 \<le> openQ bca" "0 \<le> extQ bca" "0 \<le> tandemQ bca" "1 \<le> r" "\<bar>l1\<bar> \<le> \<bar>l2\<bar>"
    "seqQ_fits bca l2 r"
  shows "seqQ_fits bca l1 r"
proof -
  have e: "extQ bca * (\<bar>l1\<bar> - 1) \<le> extQ bca * (\<bar>l2\<bar> - 1)"
    using assms(2,5) by (simp add: mult_left_mono)
  have "- extQ bca \<le> extQ bca * (\<bar>l1\<bar> - 1)"
    using mult_left_mono[of "- 1" "\<bar>l1\<bar> - 1" "extQ bca"] assms(2) by simp
  then have lo: "- (2 ^ 31) \<le> openQ bca + extQ bca * (\<bar>l1\<bar> - 1)"
    using assms(1,6) by (simp add: seqQ_fits_def)
  have "(of_int (tandemQ bca) * of_int \<bar>l1\<bar> :: rat) \<le> of_int (tandemQ bca) * of_int \<bar>l2\<bar>"
    using assms(3,5) by (intro mult_left_mono) auto
  then have "(of_int (tandemQ bca) * of_int \<bar>l1\<bar> :: rat) / of_int r \<le> of_int (tandemQ bca) * of_int \<bar>l2\<bar> / of_int r"
    using assms(4) by (intro divide_right_mono) auto
  then show ?thesis using assms(5,6) e lo by (auto simp: seqQ_fits_def)
qed

text \<open>
  Within the range of \<open>int\<close> the estimate behaves as the comment before the function says:
  it does not increase when the run length grows (from 1 on) and does not decrease when
  the absolute size grows.
\<close>

lemma est_seqQ_monotone_in_range:
  assumes "0 \<le> openQ bca" "0 \<le> extQ bca" "0 \<le> tandemQ bca"
  shows "(1 \<le> r1 \<longrightarrow> r1 \<le> r2 \<longrightarrow> seqQ_fits bca l r1 \<longrightarrow> est_seqQ bca l r2 s \<le> est_seqQ bca l r1 s) \<and>
         (1 \<le> r \<longrightarrow> \<bar>l1\<bar> \<le> \<bar>l2\<bar> \<longrightarrow> seqQ_fits bca l2 r \<longrightarrow> est_seqQ bca l1 r s \<le> est_seqQ bca l2 r s)"
proof (intro conjI impI)
  assume r: "1 \<le> r1" "r1 \<le> r2" and fit: "seqQ_fits bca l r1"
  have fit2: "seqQ_fits bca l r2" using seqQ_fits_run[OF assms(3) r fit] .
  have r2: "1 \<le> r2" using r by simp
  have "(of_int (tandemQ bca) * of_int \<bar>l\<bar> :: rat) / of_int r2 \<le> of_int (tandemQ bca) * of_int \<bar>l\<bar> / of_int r1"
    using r assms by (intro divide_left_mono) (auto simp: mult_pos_pos)
  then have "trunc (of_int (tandemQ bca) * of_int \<bar>l\<bar> / of_int r2 + 499 / 1000) \<le> trunc (of_int (tandemQ bca) * of_int \<bar>l\<bar> / of_int r1 + 499 / 1000)"
    by (intro trunc_mono) simp
  then show "est_seqQ bca l r2 s \<le> est_seqQ bca l r1 s"
    unfolding est_seqQ_in_range[OF assms r(1) fit] est_seqQ_in_range[OF assms r2 fit2]
    by (simp add: Let_def)
next
  assume r: "1 \<le> r" and l: "\<bar>l1\<bar> \<le> \<bar>l2\<bar>" and fit: "seqQ_fits bca l2 r"
  have fit1: "seqQ_fits bca l1 r" using seqQ_fits_size[OF assms r l fit] .
  have q: "openQ bca + extQ bca * (\<bar>l1\<bar> - 1) \<le> openQ bca + extQ bca * (\<bar>l2\<bar> - 1)"
    using assms l by (simp add: mult_left_mono)
  have "(of_int (tandemQ bca) * of_int \<bar>l1\<bar> :: rat) \<le> of_int (tandemQ bca) * of_int \<bar>l2\<bar>"
    using assms l by (intro mult_left_mono) auto
  then have "(of_int (tandemQ bca) * of_int \<bar>l1\<bar> :: rat) / of_int r \<le> of_int (tandemQ bca) * of_int \<bar>l2\<bar> / of_int r"
    using r by (intro divide_right_mono) auto
  then have "trunc (of_int (tandemQ bca) * of_int \<bar>l1\<bar> / of_int r + 499 / 1000) \<le> trunc (of_int (tandemQ bca) * of_int \<bar>l2\<bar> / of_int r + 499 / 1000)"
    by (intro trunc_mono) simp
  with q show "est_seqQ bca l1 r s \<le> est_seqQ bca l2 r s"
    unfolding est_seqQ_in_range[OF assms r fit] est_seqQ_in_range[OF assms r fit1]
    by (simp add: Let_def)
qed

lemma est_seqQ_monotone_in_range_example:
  "est_seqQ ex_bca 1 3 0 \<le> est_seqQ ex_bca 1 2 0 \<and>
   est_seqQ ex_bca 1 3 0 \<le> est_seqQ ex_bca (- 2) 3 0"
  using est_seqQ_monotone_in_range [of ex_bca 2 3 1 0 3 1 "- 2"]
  by (simp add: ex_bca_def seqQ_fits_def)

text \<open>
  Claim C6. The claim is what the comments of \<open>est_seqQ\<close> say (a longer run means fewer
  calls; the estimate scales with the size of the indel). The code stores \<open>qh\<close> in an
  \<open>int\<close>: with the default penalties (\<open>openQ = 40\<close>, \<open>extQ = 20\<close>, \<open>tandemQ = 100\<close>) and
  run length 1, \<open>qh\<close> for the size 30000000 is \<open>3000000000.499\<close>, beyond the range of
  \<open>int\<close>, and the estimate is \<open>INT_MIN\<close>. So the estimate for the size 30000000 is below
  the estimate 40 for the size 1, and it grows (to 600000020) when the run length grows
  from 1 to 2.
\<close>

theorem est_seqQ_overflow_not_monotone:
  "est_seqQ ex_bca 1 1 0 = 40 \<and>
   est_seqQ ex_bca 30000000 1 0 = - 2147483648 \<and>
   est_seqQ ex_bca 30000000 2 0 = 600000020"
  by (simp add: est_seqQ_def ex_bca_def i32_def d2i_def trunc_def INT_MIN_def Let_def)

subsection \<open>bcf\_cgp\_find\_types\<close>

lemma runs_keys: "fst ` set (runs xs) = set xs"
proof (induction xs rule: runs.induct)
  case 1
  then show ?case by simp
next
  case (2 a xs)
  have "set xs = set (takeWhile (\<lambda>x. x = a) xs) \<union> set (dropWhile (\<lambda>x. x = a) xs)"
    by (metis set_append takeWhile_dropWhile_id)
  moreover have "set (takeWhile (\<lambda>x. x = a) xs) \<subseteq> {a}"
    by (auto dest: set_takeWhileD)
  ultimately have "insert a (set xs) = insert a (set (dropWhile (\<lambda>x. x = a) xs))"
    by auto
  with 2 show ?case by simp
qed

lemma runs_strict: "sorted xs \<Longrightarrow> sorted_wrt (<) (map fst (runs xs))"
proof (induction xs rule: runs.induct)
  case 1
  then show ?case by simp
next
  case (2 a xs)
  let ?d = "dropWhile (\<lambda>x. x = a) xs"
  have s: "sorted ?d" using 2(2) by (simp add: sorted_dropWhile)
  have gt: "a < y" if "y \<in> set ?d" for y
  proof -
    from that have ne: "?d \<noteq> []" by (metis empty_iff empty_set)
    then have h: "hd ?d \<noteq> a" using hd_dropWhile by blast
    have "hd ?d \<in> set xs" using ne by (meson hd_in_set set_dropWhileD)
    then have "a \<le> hd ?d" using 2(2) by auto
    moreover have "hd ?d \<le> y" using s that ne
      by (metis list.collapse set_ConsD sorted_simps(2) order_refl)
    ultimately show ?thesis using h by linarith
  qed
  have "fst ` set (runs ?d) = set ?d" by (rule runs_keys)
  then have "\<forall>y \<in> set (map fst (runs ?d)). a < y" using gt by auto
  with 2(1)[OF s] show ?case by simp
qed

lemma count_changes_drop:
  "count_changes (a # xs) =
     (if dropWhile (\<lambda>x. x = a) xs = [] then 0 else 1 + count_changes (dropWhile (\<lambda>x. x = a) xs))"
proof (induction xs)
  case Nil
  then show ?case by simp
next
  case (Cons b xs)
  then show ?case by (cases "b = a") auto
qed

lemma runs_eq_Nil: "runs xs = [] \<longleftrightarrow> xs = []"
  by (cases xs) auto

lemma length_runs: "xs \<noteq> [] \<Longrightarrow> int (length (runs xs)) = 1 + count_changes xs"
proof (induction xs rule: runs.induct)
  case 1
  then show ?case by simp
next
  case (2 a xs)
  show ?case
  proof (cases "dropWhile (\<lambda>x. x = a) xs = []")
    case True
    then have "runs (dropWhile (\<lambda>x. x = a) xs) = []" by (metis runs.simps(1))
    with True show ?thesis by (simp add: count_changes_drop del: dropWhile_eq_Nil_conv)
  next
    case False
    with 2(1) show ?thesis by (simp add: count_changes_drop del: dropWhile_eq_Nil_conv)
  qed
qed

lemma count_list_distinct: "distinct xs \<Longrightarrow> x \<in> set xs \<Longrightarrow> count_list xs x = 1"
  by (induction xs) (auto simp: count_list_0_iff)

lemma tally_reads_keys:
  "tally_reads ps (na, nt, ks, mx) = (na', nt', ks', mx') \<Longrightarrow>
     set ks' = set ks \<union> {u32 (MINUS_CONST + indel p) | p. p \<in> set ps \<and> indel p \<noteq> 0}"
proof (induction ps arbitrary: na nt ks mx)
  case Nil
  then show ?case by simp
next
  case (Cons p ps)
  show ?case
  proof (cases "indel p \<noteq> 0")
    case True
    with Cons.prems have "tally_reads ps (na + 1, nt + 1, ks @ [u32 (MINUS_CONST + indel p)], if qlen p > mx then qlen p else mx) = (na', nt', ks', mx')"
      by simp
    from Cons.IH[OF this] True show ?thesis by auto
  next
    case False
    with Cons.prems have "tally_reads ps (na, nt + 1, ks, if qlen p > mx then qlen p else mx) = (na', nt', ks', mx')"
      by simp
    from Cons.IH[OF this] False show ?thesis by auto
  qed
qed

lemma tally_samples_keys:
  "set (keys (tally_samples bca plp st)) =
     set (keys st) \<union> {u32 (MINUS_CONST + indel p) | p s. s \<in> set plp \<and> p \<in> set s \<and> indel p \<noteq> 0}"
proof (induction plp arbitrary: st)
  case Nil
  then show ?case by simp
next
  case (Cons smp rest)
  obtain na nt ks mx where t: "tally_reads smp (0, 0, keys st, rd_len st) = (na, nt, ks, mx)"
    by (metis prod_cases4)
  have k: "set ks = set (keys st) \<union> {u32 (MINUS_CONST + indel p) | p. p \<in> set smp \<and> indel p \<noteq> 0}"
    using tally_reads_keys[OF t] .
  show ?case
    using t by (simp add: Let_def Cons.IH k) blast
qed

lemma type_sz_mod: "type_sz a mod 2 ^ 32 = (a - MINUS_CONST) mod 2 ^ 32"
  by (simp only: type_sz_def i32_mod u32_def mod_mod_trivial)

lemma type_sz_inj:
  assumes "0 \<le> a" "a < 2 ^ 32" "0 \<le> b" "b < 2 ^ 32" "type_sz a = type_sz b"
  shows "a = b"
proof -
  have "(a - MINUS_CONST) mod 2 ^ 32 = (b - MINUS_CONST) mod 2 ^ 32"
    using assms(5) type_sz_mod by metis
  moreover have "a mod 2 ^ 32 = ((a - MINUS_CONST) mod 2 ^ 32 + MINUS_CONST) mod 2 ^ 32"
    by (simp add: mod_add_left_eq)
  moreover have "b mod 2 ^ 32 = ((b - MINUS_CONST) mod 2 ^ 32 + MINUS_CONST) mod 2 ^ 32"
    by (simp add: mod_add_left_eq)
  ultimately have "a mod 2 ^ 32 = b mod 2 ^ 32"
    by simp
  moreover have "a mod 2 ^ 32 = a" using assms(1,2) by (rule mod_pos_pos_trivial)
  moreover have "b mod 2 ^ 32 = b" using assms(3,4) by (rule mod_pos_pos_trivial)
  ultimately show ?thesis by simp
qed

lemma key_mono: "- (2 ^ 28) \<le> d \<Longrightarrow> d < 2 ^ 31 \<Longrightarrow> u32 (MINUS_CONST + d) = MINUS_CONST + d"
  by (simp add: u32_def MINUS_CONST_def)

lemma type_sz_key:
  assumes "- (2 ^ 28) \<le> d" "d < 2 ^ 31"
  shows "type_sz (u32 (MINUS_CONST + d)) = d"
proof -
  have "type_sz (MINUS_CONST + d) = i32 (d mod 2 ^ 32)"
    by (simp add: type_sz_def u32_def)
  also have "\<dots> = i32 d" by (simp add: i32_def)
  also have "\<dots> = d" using assms by (intro i32_id) auto
  finally show ?thesis using assms by (simp add: key_mono)
qed

lemma type_sz_zero: "type_sz (u32 MINUS_CONST) = 0"
  by (simp add: type_sz_def u32_def i32_def MINUS_CONST_def)

lemma type_sz_zero_iff: "0 \<le> a \<Longrightarrow> a < 2 ^ 32 \<Longrightarrow> type_sz a = 0 \<longleftrightarrow> a = MINUS_CONST"
  using type_sz_inj[of a MINUS_CONST] type_sz_zero by (auto simp: u32_def MINUS_CONST_def)

lemma find_types_SomeD:
  assumes "bcf_cgp_find_types al plp ps bca rf = (Some r, bca')"
  shows
    "1 + count_changes (sort (keys (find_types_tally bca plp))) < MAX_TYPES \<and>
     types_r r = select_types bca (find_types_tally bca plp) \<and>
     n_types_r r = int (length (types_r r)) \<and>
     ref_type_r r = int (length (takeWhile (\<lambda>x. x \<noteq> 0) (types_r r)))"
proof -
  obtain i nN where c: "count_N rf ps
                 (ps + (if 2 * indel_win_size bca < rd_len (find_types_tally bca plp)
                        then 2 * indel_win_size bca else rd_len (find_types_tally bca plp))) 0 = (i, nN)"
    by (metis surj_pair)
  show ?thesis
    using assms unfolding bcf_cgp_find_types_def Let_def c
    by (auto split: if_splits)
qed

lemma find_types_frame:
  "\<exists>a b. snd (bcf_cgp_find_types al plp ps bca rf) = bca\<lparr>max_support := a, max_frac := b\<rparr>"
proof -
  obtain i nN where c: "count_N rf ps
                 (ps + (if 2 * indel_win_size bca < rd_len (find_types_tally bca plp)
                        then 2 * indel_win_size bca else rd_len (find_types_tally bca plp))) 0 = (i, nN)"
    by (metis surj_pair)
  have "snd (bcf_cgp_find_types al plp ps bca rf) = bca\<lparr>max_support := 0, max_frac := 0\<rparr> \<or>
        snd (bcf_cgp_find_types al plp ps bca rf) =
          bca\<lparr>max_support := cur_support (find_types_tally bca plp),
               max_frac := cur_frac (find_types_tally bca plp)\<rparr>"
    unfolding bcf_cgp_find_types_def Let_def c by simp
  then show ?thesis by blast
qed

lemma keys_range:
  "u32 MINUS_CONST \<in> set (keys (find_types_tally bca plp))"
  "\<forall>k \<in> set (keys (find_types_tally bca plp)). 0 \<le> k \<and> k < 2 ^ 32"
  by (auto simp: find_types_tally_def tally_samples_keys u32_def)

text \<open>
  Whenever \<open>bcf_cgp_find_types\<close> returns a list, the list has at most 64 entries, exactly
  one of them is 0, and the reference-type index returned is the index of that entry. The
  list is strictly increasing when every indel size of the pileup is at least \<open>- 2 ^ 28\<close>
  (and below \<open>2 ^ 31\<close>, as an \<open>int\<close> is): the sort key \<open>MINUS_CONST + indel\<close> is then the
  same number as a \<open>uint32_t\<close>.
\<close>

lemma find_types_list_properties:
  assumes "bcf_cgp_find_types al plp ps bca rf = (Some r, bca')"
  shows "length (types_r r) \<le> 64 \<and> count_list (types_r r) 0 = 1 \<and>
         0 \<le> ref_type_r r \<and> ref_type_r r < int (length (types_r r)) \<and>
         types_r r ! nat (ref_type_r r) = 0 \<and>
         ((\<forall>s \<in> set plp. \<forall>p \<in> set s. - (2 ^ 28) \<le> indel p \<and> indel p < 2 ^ 31)
            \<longrightarrow> sorted_wrt (<) (types_r r))"
proof -
  define st where "st = find_types_tally bca plp"
  define sk where "sk = sort (keys st)"
  define kept where "kept = map fst (filter (keep_type bca (n_tot st)) (runs sk))"
  note d = find_types_SomeD[OF assms, folded st_def]
  have ty: "types_r r = map type_sz kept"
    using d by (simp add: kept_def sk_def select_types_def comp_def)
  have ref: "ref_type_r r = int (length (takeWhile (\<lambda>x. x \<noteq> 0) (types_r r)))"
    using d by simp
  have nt: "1 + count_changes sk < MAX_TYPES" using d by (simp add: sk_def)
  have mem: "u32 MINUS_CONST \<in> set (keys st)" and rng: "\<forall>k \<in> set (keys st). 0 \<le> k \<and> k < 2 ^ 32"
    using keys_range[of bca plp] by (auto simp: st_def)
  have sk_set: "set sk = set (keys st)" by (simp add: sk_def)
  have sk_ne: "sk \<noteq> []" using mem sk_set by auto
  have strict: "sorted_wrt (<) (map fst (runs sk))"
    by (rule runs_strict) (simp add: sk_def)
  have strict_kept: "sorted_wrt (<) kept"
    using strict unfolding kept_def sorted_wrt_map by (rule sorted_wrt_filter)
  then have dist_kept: "distinct kept" by (simp add: strict_sorted_iff)
  have "set kept \<subseteq> fst ` set (runs sk)" by (auto simp: kept_def)
  then have kept_sub: "set kept \<subseteq> set (keys st)" by (simp add: runs_keys sk_set)
  have kept_rng: "\<forall>k \<in> set kept. 0 \<le> k \<and> k < 2 ^ 32" using kept_sub rng by blast
  have "u32 MINUS_CONST \<in> fst ` set (runs sk)" using mem by (simp add: runs_keys sk_set)
  then obtain c where "(u32 MINUS_CONST, c) \<in> set (runs sk)" by auto
  moreover have "keep_type bca (n_tot st) (u32 MINUS_CONST, c)"
    by (simp add: keep_type_def type_sz_zero)
  ultimately have mc_kept: "u32 MINUS_CONST \<in> set kept" by (force simp: kept_def)
  have inj: "inj_on type_sz (set kept)"
    using kept_rng by (auto intro!: inj_onI type_sz_inj)
  have dist: "distinct (types_r r)" unfolding ty using dist_kept inj by (simp add: distinct_map)
  have zero_in: "0 \<in> set (types_r r)" unfolding ty using mc_kept type_sz_zero by force
  have one: "count_list (types_r r) 0 = 1" using dist zero_in by (rule count_list_distinct)
  have "length kept \<le> length (runs sk)" by (simp add: kept_def)
  moreover have "int (length (runs sk)) = 1 + count_changes sk" using sk_ne by (rule length_runs)
  ultimately have len: "length (types_r r) \<le> 64" using nt by (simp add: ty MAX_TYPES_def)
  have "takeWhile (\<lambda>x. x \<noteq> 0) (types_r r) \<noteq> types_r r"
    using zero_in by (auto simp: takeWhile_eq_all_conv)
  then have lt: "length (takeWhile (\<lambda>x. x \<noteq> 0) (types_r r)) < length (types_r r)"
    by (metis length_takeWhile_le le_neq_implies_less takeWhile_eq_take take_all_iff order_refl)
  then have at: "types_r r ! length (takeWhile (\<lambda>x. x \<noteq> 0) (types_r r)) = 0"
    using nth_length_takeWhile[of "\<lambda>x. x \<noteq> 0" "types_r r"] by simp
  have srt: "sorted_wrt (<) (types_r r)"
    if h: "\<forall>s \<in> set plp. \<forall>p \<in> set s. - (2 ^ 28) \<le> indel p \<and> indel p < 2 ^ 31"
  proof -
    have "type_sz k = k - MINUS_CONST" if "k \<in> set kept" for k
    proof -
      from that kept_sub have "k \<in> set (keys st)" by blast
      then consider "k = u32 MINUS_CONST"
        | s p where "s \<in> set plp" "p \<in> set s" "k = u32 (MINUS_CONST + indel p)"
        unfolding st_def find_types_tally_def tally_samples_keys by auto
      then show ?thesis
      proof cases
        case 1
        then show ?thesis using type_sz_zero by (simp add: u32_def MINUS_CONST_def)
      next
        case 2
        with h have b: "- (2 ^ 28) \<le> indel p" "indel p < 2 ^ 31" by auto
        show ?thesis using type_sz_key[OF b] key_mono[OF b] 2(3) by simp
      qed
    qed
    then have "map type_sz kept = map (\<lambda>k. k - MINUS_CONST) kept" by (intro map_cong) auto
    moreover have "sorted_wrt (<) (map (\<lambda>k. k - MINUS_CONST) kept)"
      using strict_kept by (simp add: sorted_wrt_map)
    ultimately show ?thesis by (simp only: ty)
  qed
  show ?thesis using len one lt at srt by (simp add: ref)
qed

lemma find_types_list_properties_example:
  "bcf_cgp_find_types ex_allocs [[ex_read 0, ex_read 1, ex_read (- 2)]] 0 ex_bca ''ACGT''
   = (Some \<lparr>types_r = [- 2, 0, 1], n_types_r = 3, ref_type_r = 1, max_rd_len_r = 2, N_r = 3\<rparr>,
      ex_bca\<lparr>max_support := 2, max_frac := 2 / 3\<rparr>) \<and>
   sorted_wrt (<) [- 2, 0, 1 :: int] \<and> count_list [- 2, 0, 1 :: int] 0 = 1"
proof -
  have run: "bcf_cgp_find_types ex_allocs [[ex_read 0, ex_read 1, ex_read (- 2)]] 0 ex_bca ''ACGT''
   = (Some \<lparr>types_r = [- 2, 0, 1], n_types_r = 3, ref_type_r = 1, max_rd_len_r = 2, N_r = 3\<rparr>,
      ex_bca\<lparr>max_support := 2, max_frac := 2 / 3\<rparr>)"
    by code_simp
  from find_types_list_properties [OF run] show ?thesis
    using run by (simp add: ex_read_def)
qed

text \<open>
  Claim C1. The claim is what the comment before \<open>bcf_cgp_find_types\<close> says: the types
  returned are sorted by size, from the smallest (maybe negative) to the largest. The
  code sorts the \<open>uint32_t\<close> keys \<open>MINUS_CONST + indel\<close> and nothing keeps an indel from
  being below \<open>- MINUS_CONST\<close>: for a pileup with the indel sizes 0 and \<open>- 2 ^ 28 - 1\<close> the
  key of the deletion wraps around to \<open>0xffffffff\<close>, is sorted last, and the list returned
  is \<open>[0, - 268435457]\<close>, which is not increasing.
\<close>

theorem find_types_wrapped_key_unsorted:
  "fst (bcf_cgp_find_types ex_allocs [[ex_read 0, ex_read (- 268435457)]] 0 ex_bca ''ACGT'')
   = Some \<lparr>types_r = [0, - 268435457], n_types_r = 2, ref_type_r = 0, max_rd_len_r = 2, N_r = 2\<rparr> \<and>
   \<not> sorted_wrt (<) [0, - 268435457 :: int]"
  by code_simp

text \<open>
  Claim C8. The claim rejects every site whose scan window holds at least as many \<open>N\<close> as
  other bases, as the comment before the test says (half or more). The test of the code is
  \<open>nN*2 > (i-pos)\<close>: a window of which exactly half is \<open>N\<close> passes. Here the window is
  \<open>NA\<close> (two bases, one \<open>N\<close>) and the list \<open>[0, 1]\<close> is returned.
\<close>

theorem find_types_half_N_accepted:
  "count_N ''NA'' 0 2 0 = (2, 1) \<and>
   fst (bcf_cgp_find_types ex_allocs [[ex_read 0, ex_read 1]] 0 ex_bca ''NA'')
   = Some \<lparr>types_r = [0, 1], n_types_r = 2, ref_type_r = 0, max_rd_len_r = 2, N_r = 2\<rparr>"
  by code_simp

text \<open>A window with more \<open>N\<close> than other bases is rejected.\<close>

lemma find_types_majority_N_rejected:
  assumes "count_N rf ps
             (ps + (if 2 * indel_win_size bca < rd_len (find_types_tally bca plp)
                    then 2 * indel_win_size bca else rd_len (find_types_tally bca plp))) 0 = (i, nN)"
    and "nN * 2 > i - ps"
  shows "fst (bcf_cgp_find_types al plp ps bca rf) = None"
  unfolding bcf_cgp_find_types_def Let_def assms(1)
  using assms(2) by simp

subsection \<open>The choice between the two alignments\<close>

lemma best_of_two_min: "0 \<le> sc1 \<Longrightarrow> 0 \<le> sc2 \<Longrightarrow> best_of_two sc1 sc2 = Some (min sc1 sc2)"
  by (auto simp: best_of_two_def)

lemma edlib_glocal_fail:
  "\<not> status_ok (edlibAlign query rf) \<Longrightarrow> edlib_glocal edlibAlign rf query m del_bias = INT_MAX"
  by (simp add: edlib_glocal_def Let_def split: option.splits)

lemma i32_bit: "n < 32 \<Longrightarrow> bit (i32 x) n = bit x n"
proof -
  assume n: "n < 32"
  have "take_bit 32 (i32 x) = take_bit 32 x"
    unfolding take_bit_eq_mod by (rule i32_mod)
  then have "bit (take_bit 32 (i32 x)) n = bit (take_bit 32 x) n" by simp
  then show ?thesis using n by (simp add: bit_take_bit_iff)
qed

lemma overflow_not_sentinel: "i32 (push_bit 8 INT_MAX OR low) \<noteq> 0xffffff"
proof
  have im: "INT_MAX = mask 31" by (simp add: INT_MAX_def mask_eq_exp_minus_1)
  have sm: "(0xffffff :: int) = mask 24" by (simp add: mask_eq_exp_minus_1)
  assume "i32 (push_bit 8 INT_MAX OR low) = 0xffffff"
  then have "bit (i32 (push_bit 8 INT_MAX OR low)) 24 = bit (mask 24 :: int) 24" by (simp only: sm)
  then have "bit (push_bit 8 (mask 31 :: int) OR low) 24 = bit (mask 24 :: int) 24"
    by (simp add: i32_bit im)
  moreover have "bit (push_bit 8 (mask 31 :: int) OR low) 24"
    by (simp add: bit_or_iff bit_push_bit_iff bit_mask_iff)
  moreover have "\<not> bit (mask 24 :: int) 24"
    by (simp add: bit_mask_iff)
  ultimately show False by simp
qed

text \<open>
  Claim C7. The claim asks for the sentinel \<open>0xffffff\<close> when neither alignment succeeds.
  \<open>edlib_glocal\<close> reports a failed alignment as \<open>INT_MAX\<close>, while the sentinel branch of
  \<open>bcf_cgp_align_score\<close> tests \<open>sc1 < 0 && sc2 < 0\<close>: when both alignments fail, both
  scores are \<open>INT_MAX\<close>, the branch is not taken, \<open>INT_MAX\<close> is used as the score and the
  value stored is \<open>(INT_MAX<<8) | low\<close>, which is never \<open>0xffffff\<close>. (When both scores are
  not negative the smaller is used, \<open>best_of_two_min\<close>; a failed alignment loses against a
  successful one for the same reason.)
\<close>

theorem both_alignments_fail:
  assumes "\<not> status_ok (edlibAlign query seg1)" "\<not> status_ok (edlibAlign query seg2)"
  shows "edlib_glocal edlibAlign seg1 query m del_bias = INT_MAX \<and>
         edlib_glocal edlibAlign seg2 query m del_bias = INT_MAX \<and>
         best_of_two INT_MAX INT_MAX = Some INT_MAX \<and>
         align_score_end edlibAlign indel_bias seg1 seg2 query iscore m2 m2min qavg del_bias \<noteq> 0xffffff"
proof -
  have b: "best_of_two INT_MAX INT_MAX = Some INT_MAX" by (simp add: best_of_two_def INT_MAX_def)
  have "align_score_end edlibAlign indel_bias seg1 seg2 query iscore m2 m2min qavg del_bias \<noteq> 0xffffff"
    unfolding align_score_end_def Let_def
    using assms b by (simp add: edlib_glocal_fail overflow_not_sentinel)
  then show ?thesis using assms b by (simp add: edlib_glocal_fail)
qed

theorem both_alignments_fail_witness:
  "edlib_glocal ex_failed [0, 1] [0, 1] 30 0 = INT_MAX \<and>
   edlib_glocal ex_failed [0, 2] [0, 1] 30 0 = INT_MAX \<and>
   align_score_end ex_failed 1 [0, 1] [0, 2] [0, 1] 0 30 30 30 0 \<noteq> 0xffffff"
  using both_alignments_fail [of ex_failed "[0, 1]" "[0, 1]" "[0, 2]" 30 0 1 0 30 30 30]
  by (simp add: ex_failed_def)

subsection \<open>The consensus\<close>

lemma foldl_longest_ge:
  "acc \<le> foldl (\<lambda>ins a. if ins < int (length (ins_str a)) then int (length (ins_str a)) else ins) acc sf"
proof (induction sf arbitrary: acc)
  case Nil
  then show ?case by simp
next
  case (Cons a sf)
  show ?case using Cons[of "if acc < int (length (ins_str a)) then int (length (ins_str a)) else acc"]
    by (auto split: if_splits)
qed

lemma foldl_longest_mem:
  "x \<in> set sf \<Longrightarrow> int (length (ins_str x)) \<le> foldl (\<lambda>ins a. if ins < int (length (ins_str a)) then int (length (ins_str a)) else ins) acc sf"
proof (induction sf arbitrary: acc)
  case Nil
  then show ?case by simp
next
  case (Cons a sf)
  show ?case
  proof (cases "x = a")
    case True
    have "int (length (ins_str a)) \<le> (if acc < int (length (ins_str a)) then int (length (ins_str a)) else acc)"
      by simp
    also have "\<dots> \<le> foldl (\<lambda>ins a. if ins < int (length (ins_str a)) then int (length (ins_str a)) else ins) (if acc < int (length (ins_str a)) then int (length (ins_str a)) else acc) sf"
      by (rule foldl_longest_ge)
    finally show ?thesis using True by simp
  next
    case False
    with Cons.prems have "x \<in> set sf" by simp
    from Cons.IH[OF this] show ?thesis by simp
  qed
qed

lemma longest_ins_nonneg: "0 \<le> longest_ins sf"
  unfolding longest_ins_def by (rule foldl_longest_ge)

lemma longest_ins_nth: "j < length sf \<Longrightarrow> int (length (ins_str (sf ! j))) \<le> longest_ins sf"
  unfolding longest_ins_def by (rule foldl_longest_mem) simp

lemma length_put_ins: "length (cons (put_ins a cnum bs w)) = length (cons w) + length bs"
  by (induction bs arbitrary: w) auto

lemma note_cpos_cons: "cons (note_cpos a i w) = cons w"
  by (simp add: note_cpos_def)

lemma call_base_length: "length (cons (call_base a cnum i cb best w)) \<le> length (cons w) + 1"
  unfolding call_base_def Let_def
  by (simp split: prod.splits)

lemma call_ins_length:
  assumes "top_ins ci 0 (0, 0, 0) = (max_v_ins, max_j_ins, tot_ins)"
  shows "length (cons (call_ins a cnum i tot ci w)) \<le>
     length (cons w) + length (if max_j_ins < length ci then ins_str (ci ! max_j_ins) else [])"
  unfolding call_ins_def Let_def assms prod.case
  by (simp add: length_put_ins)

lemma walk_pos_length:
  "int (length (cons (walk_pos a cnum i cb ci w))) \<le> int (length (cons w)) + longest_ins ci + 1"
proof -
  obtain max_v max_v2 max_j max_j2 tot where t2: "top2 cb 0 (0, 0, 4, 4, 0) = (max_v, max_v2, max_j, max_j2, tot)"
    by (metis prod_cases5)
  obtain max_v_ins max_j_ins tot_ins where ti: "top_ins ci 0 (0, 0, 0) = (max_v_ins, max_j_ins, tot_ins)"
    by (metis prod_cases3)
  define ins where "ins = (if max_j_ins < length ci then ins_str (ci ! max_j_ins) else [])"
  have il: "int (length ins) \<le> longest_ins ci"
    using longest_ins_nth[of max_j_ins ci] longest_ins_nonneg[of ci] by (simp add: ins_def)
  have a1: "int (length (cons (call_ins a cnum i tot ci (note_cpos a i w)))) \<le> int (length (cons w)) + int (length ins)"
    using call_ins_length[OF ti, of a cnum i tot "note_cpos a i w"]
    by (simp add: note_cpos_cons ins_def)
  have wp: "walk_pos a cnum i cb ci w =
      call_base a cnum i cb (max_v, max_v2, max_j, max_j2, tot) (call_ins a cnum i tot ci (note_cpos a i w))"
    by (simp add: walk_pos_def t2)
  have a2: "int (length (cons (call_base a cnum i cb (max_v, max_v2, max_j, max_j2, tot) (call_ins a cnum i tot ci (note_cpos a i w)))))
      \<le> int (length (cons (call_ins a cnum i tot ci (note_cpos a i w)))) + 1"
    using call_base_length[of a cnum i cb "(max_v, max_v2, max_j, max_j2, tot)" "call_ins a cnum i tot ci (note_cpos a i w)"]
    by linarith
  show ?thesis unfolding wp using a1 a2 il by linarith
qed

lemma walk_from_length:
  "i \<le> c_right a - c_left a \<Longrightarrow>
   int (length (cons (walk_from a cnum cons_base cons_ins i w))) \<le>
     int (length (cons w)) + (c_right a - c_left a - i) + sum_longest cons_ins i (c_right a - c_left a)"
proof (induction a cnum cons_base cons_ins i w rule: walk_from.induct)
  case (1 a cnum cons_base cons_ins i w)
  show ?case
  proof (cases "i < c_right a - c_left a")
    case True
    have step: "int (length (cons (walk_pos a cnum i (cons_base ! nat i) (cons_ins ! nat i) w)))
        \<le> int (length (cons w)) + longest_ins (cons_ins ! nat i) + 1"
      by (rule walk_pos_length)
    have ih: "int (length (cons (walk_from a cnum cons_base cons_ins (i + 1)
                 (walk_pos a cnum i (cons_base ! nat i) (cons_ins ! nat i) w))))
        \<le> int (length (cons (walk_pos a cnum i (cons_base ! nat i) (cons_ins ! nat i) w)))
           + (c_right a - c_left a - (i + 1)) + sum_longest cons_ins (i + 1) (c_right a - c_left a)"
      using "1.IH"[OF True] True by simp
    have sl: "sum_longest cons_ins i (c_right a - c_left a) =
        longest_ins (cons_ins ! nat i) + sum_longest cons_ins (i + 1) (c_right a - c_left a)"
      using True by (subst sum_longest.simps) simp
    have wf: "walk_from a cnum cons_base cons_ins i w =
        walk_from a cnum cons_base cons_ins (i + 1) (walk_pos a cnum i (cons_base ! nat i) (cons_ins ! nat i) w)"
      using True by (subst walk_from.simps) simp
    show ?thesis unfolding wf sl using step ih by linarith
  next
    case False
    with "1.prems" have e: "i = c_right a - c_left a" by simp
    have "walk_from a cnum cons_base cons_ins i w = w"
      using False by (subst walk_from.simps) simp
    moreover have "sum_longest cons_ins i (c_right a - c_left a) = 0"
      using False by (subst sum_longest.simps) simp
    ultimately show ?thesis using e by simp
  qed
qed

lemma consensus_walk_length:
  assumes "c_left a \<le> c_right a"
  shows "int (length (fst (consensus_walk a cons_base cons_ins)))
           \<le> consensus_max_len cons_ins (c_left a) (c_right a) \<and>
         int (length (fst (snd (consensus_walk a cons_base cons_ins))))
           \<le> consensus_max_len cons_ins (c_left a) (c_right a)"
proof -
  define w0 where "w0 = walk_from a 0 cons_base cons_ins 0
                 \<lparr>cons = [], left_shift = 0, right_shift = 0, cpos_pos = -1,
                  heti = (\<lambda>i. 0), hetd = (\<lambda>i. 0)\<rparr>"
  have c0: "fst (consensus_walk a cons_base cons_ins) = cons w0"
    and c1: "fst (snd (consensus_walk a cons_base cons_ins))
               = cons (walk_from a 1 cons_base cons_ins 0 (w0\<lparr>cons := []\<rparr>))"
    by (auto simp: consensus_walk_def Let_def w0_def)
  have z: "(0::int) \<le> c_right a - c_left a" using assms(1) by simp
  have "int (length (cons w0)) \<le> consensus_max_len cons_ins (c_left a) (c_right a)"
    unfolding w0_def consensus_max_len_def
    using walk_from_length[OF z, of 0 cons_base cons_ins "\<lparr>cons = [], left_shift = 0, right_shift = 0, cpos_pos = -1,
                  heti = (\<lambda>i. 0), hetd = (\<lambda>i. 0)\<rparr>"] by simp
  moreover have "int (length (cons (walk_from a 1 cons_base cons_ins 0 (w0\<lparr>cons := []\<rparr>))))
      \<le> consensus_max_len cons_ins (c_left a) (c_right a)"
    unfolding consensus_max_len_def
    using walk_from_length[OF z, of 1 cons_base cons_ins "w0\<lparr>cons := []\<rparr>"] by simp
  ultimately show ?thesis by (simp only: c0 c1)
qed

lemma incr_length: "length (incr tab i k) = length tab"
  by (simp add: incr_def)

lemma match_loop_len:
  "match_loop a nt16 p j len (x, y, tb) = (x', y', tb') \<Longrightarrow>
   length (f_cons_ins tb') = length (f_cons_ins tb)"
proof (induction a nt16 p j len "(x, y, tb)" arbitrary: x y tb rule: match_loop.induct)
  case (1 a nt16 p j len x y tb)
  show ?case
    using "1.prems" "1.hyps"
    by (subst (asm) match_loop.simps) (auto split: if_splits)
qed

lemma del_loop_len:
  "del_loop a p j len (x, sk, tb) = (x', sk', tb') \<Longrightarrow>
   length (f_cons_ins tb') = length (f_cons_ins tb)"
proof (induction a p j len "(x, sk, tb)" arbitrary: x sk tb rule: del_loop.induct)
  case (1 a p j len x sk tb)
  show ?case
    using "1.prems" "1.hyps"
    by (subst (asm) del_loop.simps) (auto split: if_splits)
qed

lemma match_loop_len':
  "length (f_cons_ins (snd (snd (match_loop a nt16 p j len st)))) = length (f_cons_ins (snd (snd st)))"
  using match_loop_len[of a nt16 p j len "fst st" "fst (snd st)" "snd (snd st)"]
  by (metis prod.collapse snd_conv)

lemma del_loop_len':
  "length (f_cons_ins (snd (snd (del_loop a p j len st)))) = length (f_cons_ins (snd (snd st)))"
  using del_loop_len[of a p j len "fst st" "fst (snd st)" "snd (snd st)"]
  by (metis prod.collapse snd_conv)

lemma cigar_step_len:
  "length (f_cons_ins (s_tabs (cigar_step a nt16 p oplen st))) = length (f_cons_ins (s_tabs st))"
  unfolding cigar_step_def Let_def case_prod_beta
  by (simp add: match_loop_len' del_loop_len')

lemma foldl_cigar_len:
  "length (f_cons_ins (s_tabs (foldl (\<lambda>st oplen. cigar_step a nt16 p oplen st) st ops)))
     = length (f_cons_ins (s_tabs st))"
  by (induction ops arbitrary: st) (simp_all add: cigar_step_len)

lemma scan_read_len:
  "length (f_cons_ins (snd (snd (scan_read a nt16 p acc)))) = length (f_cons_ins (snd (snd acc)))"
  by (cases acc) (simp add: scan_read_def Let_def foldl_cigar_len)

lemma foldl_scan_len:
  "length (f_cons_ins (snd (snd (foldl (\<lambda>acc p. scan_read a nt16 p acc) acc smp))))
     = length (f_cons_ins (snd (snd acc)))"
  by (induction smp arbitrary: acc) (simp_all add: scan_read_len)

lemma blend_pos_len: "length (f_cons_ins (blend_pos a i tb)) = length (f_cons_ins tb)"
  by (simp add: blend_pos_def Let_def)

lemma blend_from_len: "length (f_cons_ins (blend_from a i tb)) = length (f_cons_ins tb)"
proof (induction a i tb rule: blend_from.induct)
  case (1 a i tb)
  show ?case using 1 by (subst blend_from.simps) (simp add: blend_pos_len)
qed

lemma consensus_tables_len:
  "length (f_cons_ins (snd (consensus_tables a nt16 smp band))) = nat (c_right a - c_left a + 1)"
proof -
  let ?tb0 = "\<lparr>f_cons_base = replicate (nat (c_right a - c_left a + 1)) (replicate 6 0),
                f_cons_ins = replicate (nat (c_right a - c_left a + 1)) [],
                f_ref_base = replicate (nat (c_right a - c_left a + 1)) (replicate 6 0),
                f_ref_ins = replicate (nat (c_right a - c_left a + 1)) []\<rparr>"
  have "length (f_cons_ins (snd (snd (foldl (\<lambda>acc p. scan_read a nt16 p acc) (band, 0, ?tb0) smp))))
        = nat (c_right a - c_left a + 1)"
    by (simp add: foldl_scan_len)
  then show ?thesis
    by (simp add: consensus_tables_def Let_def blend_from_len case_prod_beta)
qed

lemma merge_from_lens:
  "map (\<lambda>e. length (ins_str e)) (merge_from sf j) = map (\<lambda>e. length (ins_str e)) sf"
proof (induction sf j rule: merge_from.induct)
  case (1 sf j)
  show ?case
  proof (cases "j < length sf")
    case False
    then show ?thesis by (subst merge_from.simps) simp
  next
    case True
    show ?thesis
    proof (cases "ins_freq (sf ! j) = 0")
      case z: True
      have "merge_from sf j = merge_from sf (j + 1)"
        using True z by (subst merge_from.simps) simp
      with "1.IH"(1)[OF True z] show ?thesis by simp
    next
      case nz: False
      define e where "e = sf ! j"
      define same where "same = (\<lambda>k. k > j \<and> length (ins_str (sf ! k)) = length (ins_str e)
                                 \<and> ins_freq (sf ! k) \<noteq> 0)"
      define grp where "grp = e # map (\<lambda>k. sf ! k) (filter same [0 ..< length sf])"
      define e' where "e' = \<lparr>ins_str = map (\<lambda>l. vote (column grp l)) [0 ..< length (ins_str e)],
                        ins_freq = sum_list (map ins_freq grp)\<rparr>"
      define sf' where "sf' = map (\<lambda>k. if k = j then e' else if same k then (sf ! k)\<lparr>ins_freq := 0\<rparr> else sf ! k)
                          [0 ..< length sf]"
      have step: "merge_from sf j = merge_from sf' (j + 1)"
        unfolding sf'_def e'_def grp_def same_def e_def
        using True nz
        by (subst merge_from.simps) (simp add: Let_def)
      have ih: "map (\<lambda>e. length (ins_str e)) (merge_from sf' (j + 1)) = map (\<lambda>e. length (ins_str e)) sf'"
        using "1.IH"(2)[OF True nz e_def same_def grp_def e'_def sf'_def] .
      have "map (\<lambda>e. length (ins_str e)) sf' = map (\<lambda>e. length (ins_str e)) sf"
      proof (rule nth_equalityI)
        show "length (map (\<lambda>e. length (ins_str e)) sf') = length (map (\<lambda>e. length (ins_str e)) sf)"
          by (simp add: sf'_def)
      next
        fix k assume "k < length (map (\<lambda>e. length (ins_str e)) sf')"
        then have k: "k < length sf" by (simp add: sf'_def)
        then show "map (\<lambda>e. length (ins_str e)) sf' ! k = map (\<lambda>e. length (ins_str e)) sf ! k"
          by (simp add: sf'_def e'_def e_def)
      qed
      with step ih show ?thesis by simp
    qed
  qed
qed

lemma longest_ins_lens:
  assumes "map (\<lambda>e. length (ins_str e)) sf = map (\<lambda>e. length (ins_str e)) sf'"
  shows "longest_ins sf = longest_ins sf'"
proof -
  have "longest_ins xs = foldl (\<lambda>ins n. if ins < int n then int n else ins) 0
                            (map (\<lambda>e. length (ins_str e)) xs)" for xs
    by (simp add: longest_ins_def foldl_map)
  then show ?thesis using assms by simp
qed

lemma longest_ins_merge: "longest_ins (merge_from sf j) = longest_ins sf"
  by (rule longest_ins_lens) (rule merge_from_lens)

lemma sum_longest_merge:
  "0 \<le> i \<Longrightarrow> n \<le> int (length tab) \<Longrightarrow>
   sum_longest (map (\<lambda>sf. merge_from sf 0) tab) i n = sum_longest tab i n"
proof (induction "map (\<lambda>sf. merge_from sf 0) tab" i n rule: sum_longest.induct)
  case (1 i n)
  show ?case
  proof (cases "i < n")
    case True
    then have "nat i < length tab" using "1.prems" by linarith
    then have e: "longest_ins (map (\<lambda>sf. merge_from sf 0) tab ! nat i) = longest_ins (tab ! nat i)"
      by (simp add: longest_ins_merge)
    have ih: "sum_longest (map (\<lambda>sf. merge_from sf 0) tab) (i + 1) n = sum_longest tab (i + 1) n"
      using "1.hyps"[OF True] "1.prems" by simp
    show ?thesis
      using True e ih
      by (subst sum_longest.simps, subst (2) sum_longest.simps) simp
  next
    case False
    then show ?thesis
      by (subst sum_longest.simps, subst (2) sum_longest.simps) simp
  qed
qed

text \<open>
  Claim C9, as the code has it. Each of the two consensus sequences is at most \<open>max_len\<close>
  long, the length the buffer is allocated for: \<open>right - left\<close> plus, for every position of
  the window, the length of the longest insertion recorded there.
\<close>

theorem consensus_length_bound:
  assumes "left \<le> right"
    and "bcf_cgp_consensus mem_ok nt16 smp ps bca rf ref_len left right typ biggest_del band = Some c"
  shows "int (length (tcons0 c)) \<le> r_max_len c \<and> int (length (tcons1 c)) \<le> r_max_len c \<and>
         r_max_len c = consensus_max_len
           (f_cons_ins (snd (consensus_tables
              (consensus_args ps bca rf ref_len left right typ biggest_del) nt16 smp band)))
           left right"
proof -
  define a where "a = consensus_args ps bca rf ref_len left right typ biggest_del"
  define tb where "tb = snd (consensus_tables a nt16 smp band)"
  define M where "M = map (\<lambda>sf. merge_from sf 0) (f_cons_ins tb)"
  have lr: "c_left a = left" "c_right a = right" by (simp_all add: a_def consensus_args_def)
  have c: "tcons0 c = fst (consensus_walk a (f_cons_base tb) M)"
          "tcons1 c = fst (snd (consensus_walk a (f_cons_base tb) M))"
          "r_max_len c = consensus_max_len (f_cons_ins tb) left right"
    using assms(2) unfolding bcf_cgp_consensus_def Let_def a_def[symmetric]
    by (auto simp: tb_def M_def split: if_splits prod.splits)
  have w: "int (length (fst (consensus_walk a (f_cons_base tb) M))) \<le> consensus_max_len M left right \<and>
           int (length (fst (snd (consensus_walk a (f_cons_base tb) M)))) \<le> consensus_max_len M left right"
    using consensus_walk_length[of a "f_cons_base tb" M] assms(1) lr by simp
  have "length (f_cons_ins tb) = nat (right - left + 1)"
    using consensus_tables_len[of a nt16 smp band] lr by (simp add: tb_def)
  then have "right - left \<le> int (length (f_cons_ins tb))" using assms(1) by simp
  then have "sum_longest M 0 (right - left) = sum_longest (f_cons_ins tb) 0 (right - left)"
    unfolding M_def by (intro sum_longest_merge) simp_all
  then have "consensus_max_len M left right = consensus_max_len (f_cons_ins tb) left right"
    by (simp add: consensus_max_len_def)
  with w c show ?thesis by (simp add: tb_def a_def)
qed

text \<open>The run of \<open>bcf_cgp_consensus\<close> on the sample of the one read, step by step.\<close>

lemma ex_scan:
  "scan_read (consensus_args 1 ex_bca ''ACGT'' 4 0 4 0 (- 1)) seq_nt16_int ex_ins_read
     (1, 0, \<lparr>f_cons_base = replicate 5 (replicate 6 0), f_cons_ins = replicate 5 [],
             f_ref_base = replicate 5 (replicate 6 0), f_ref_ins = replicate 5 []\<rparr>)
   = (1, 0, \<lparr>f_cons_base = [[1,0,0,0,0,0],[0,1,0,0,0,0],[0,0,1,0,0,0],[0,0,0,1,0,0],[0,0,0,0,0,0]],
             f_cons_ins = [[], [], [], [\<lparr>ins_str = [1, 2], ins_freq = 1\<rparr>], []],
             f_ref_base = replicate 5 (replicate 6 0), f_ref_ins = replicate 5 []\<rparr>)"
  by (simp add: scan_read_def consensus_args_def ex_ins_read_def cigar_step_def match_loop.simps
        incr_def bcf_cgp_append_cons_def NI_def seq_nt16_int_def eval_nat_numeral Let_def)

lemma ex_blend:
  "blend_from (consensus_args 1 ex_bca ''ACGT'' 4 0 4 0 (- 1)) 0
     \<lparr>f_cons_base = [[1,0,0,0,0,0],[0,1,0,0,0,0],[0,0,1,0,0,0],[0,0,0,1,0,0],[0,0,0,0,0,0]],
             f_cons_ins = [[], [], [], [\<lparr>ins_str = [1, 2], ins_freq = 1\<rparr>], []],
             f_ref_base = replicate 5 (replicate 6 0), f_ref_ins = replicate 5 []\<rparr>
   = \<lparr>f_cons_base = [[1,0,0,0,0,0],[0,1,0,0,0,0],[0,0,1,0,0,0],[0,0,0,1,0,0],[0,0,0,0,0,0]],
             f_cons_ins = [[], [], [], [\<lparr>ins_str = [1, 2], ins_freq = 1\<rparr>], []],
             f_ref_base = replicate 5 (replicate 6 0), f_ref_ins = replicate 5 []\<rparr>"
  by (simp add: blend_from.simps blend_pos_def consensus_args_def trunc_def eval_nat_numeral Let_def)

lemma ex_merge: "merge_from [\<lparr>ins_str = [1, 2], ins_freq = 1\<rparr>] 0 = [\<lparr>ins_str = [1, 2], ins_freq = 1\<rparr>]"
  "merge_from [] 0 = []"
  by code_simp+

lemma ex_tables:
  "consensus_tables (consensus_args 1 ex_bca ''ACGT'' 4 0 4 0 (- 1)) seq_nt16_int [ex_ins_read] 1
   = (1, \<lparr>f_cons_base = [[1,0,0,0,0,0],[0,1,0,0,0,0],[0,0,1,0,0,0],[0,0,0,1,0,0],[0,0,0,0,0,0]],
             f_cons_ins = [[], [], [], [\<lparr>ins_str = [1, 2], ins_freq = 1\<rparr>], []],
             f_ref_base = replicate 5 (replicate 6 0), f_ref_ins = replicate 5 []\<rparr>)"
proof -
  have n: "nat (c_right (consensus_args 1 ex_bca ''ACGT'' 4 0 4 0 (- 1))
                - c_left (consensus_args 1 ex_bca ''ACGT'' 4 0 4 0 (- 1)) + 1) = 5"
    by (simp add: consensus_args_def)
  show ?thesis
    unfolding consensus_tables_def Let_def n foldl.simps ex_scan prod.case ex_blend
    by (rule refl)
qed

lemma ex_walk:
  "fst (consensus_walk (consensus_args 1 ex_bca ''ACGT'' 4 0 4 0 (- 1))
     [[1,0,0,0,0,0],[0,1,0,0,0,0],[0,0,1,0,0,0],[0,0,0,1,0,0],[0,0,0,0,0,0]]
     [[], [], [], [\<lparr>ins_str = [1, 2], ins_freq = 1\<rparr>], []]) = [0, 1, 2, 1, 2, 3]"
  "fst (snd (consensus_walk (consensus_args 1 ex_bca ''ACGT'' 4 0 4 0 (- 1))
     [[1,0,0,0,0,0],[0,1,0,0,0,0],[0,0,1,0,0,0],[0,0,0,1,0,0],[0,0,0,0,0,0]]
     [[], [], [], [\<lparr>ins_str = [1, 2], ins_freq = 1\<rparr>], []])) = [0, 1, 2, 1, 2, 3]"
  "left_shift (snd (snd (consensus_walk (consensus_args 1 ex_bca ''ACGT'' 4 0 4 0 (- 1))
     [[1,0,0,0,0,0],[0,1,0,0,0,0],[0,0,1,0,0,0],[0,0,0,1,0,0],[0,0,0,0,0,0]]
     [[], [], [], [\<lparr>ins_str = [1, 2], ins_freq = 1\<rparr>], []]))) = 0"
  "right_shift (snd (snd (consensus_walk (consensus_args 1 ex_bca ''ACGT'' 4 0 4 0 (- 1))
     [[1,0,0,0,0,0],[0,1,0,0,0,0],[0,0,1,0,0,0],[0,0,0,1,0,0],[0,0,0,0,0,0]]
     [[], [], [], [\<lparr>ins_str = [1, 2], ins_freq = 1\<rparr>], []]))) = 2"
  "cpos_pos (snd (snd (consensus_walk (consensus_args 1 ex_bca ''ACGT'' 4 0 4 0 (- 1))
     [[1,0,0,0,0,0],[0,1,0,0,0,0],[0,0,1,0,0,0],[0,0,0,1,0,0],[0,0,0,0,0,0]]
     [[], [], [], [\<lparr>ins_str = [1, 2], ins_freq = 1\<rparr>], []]))) = 2"
  by code_simp+

lemma ex_max_len:
  "consensus_max_len [[], [], [], [\<lparr>ins_str = [1, 2], ins_freq = 1\<rparr>], []] 0 4 = 6"
  by code_simp

lemma ex_consensus_run:
  "bcf_cgp_consensus True seq_nt16_int [ex_ins_read] 1 ex_bca ''ACGT'' 4 0 4 0 (- 1) 1
   = Some \<lparr>tcons0 = [0, 1, 2, 1, 2, 3], tcons1 = [0, 1, 2, 1, 2, 3], r_left_shift = 0,
            r_right_shift = 2, r_band = 1, r_cpos_pos = 2, r_max_len = 6\<rparr>"
  unfolding bcf_cgp_consensus_def Let_def ex_tables
  by (simp add: ex_merge ex_walk ex_max_len case_prod_beta)

theorem consensus_length_bound_witness:
  "bcf_cgp_consensus True seq_nt16_int [ex_ins_read] 1 ex_bca ''ACGT'' 4 0 4 0 (- 1) 1
   = Some \<lparr>tcons0 = [0, 1, 2, 1, 2, 3], tcons1 = [0, 1, 2, 1, 2, 3], r_left_shift = 0,
            r_right_shift = 2, r_band = 1, r_cpos_pos = 2, r_max_len = 6\<rparr> \<and>
   int (length [0, 1, 2, 1, 2, 3 :: int]) \<le> 6"
  using consensus_length_bound [OF _ ex_consensus_run] ex_consensus_run by simp

text \<open>
  The bound of the specification, \<open>(right - left)\<close> plus the largest candidate insertion
  size, fails: an insertion that the reads of the sample carry away from the site is
  written into the consensus whatever the candidate types are. Here the candidates are
  \<open>[-1, 0]\<close> (the deletion is seen in another sample) and the type under test is 0, so the
  largest candidate insertion is 0, and the consensus has 6 bases over a window of 4.
\<close>

theorem consensus_length_counterexample:
  "bcf_cgp_consensus True seq_nt16_int [ex_ins_read] 1 ex_bca ''ACGT'' 4 0 4 0 (- 1) 1
   = Some \<lparr>tcons0 = [0, 1, 2, 1, 2, 3], tcons1 = [0, 1, 2, 1, 2, 3], r_left_shift = 0,
            r_right_shift = 2, r_band = 1, r_cpos_pos = 2, r_max_len = 6\<rparr> \<and>
   \<not> int (length [0, 1, 2, 1, 2, 3 :: int]) \<le> (4 - 0) + max_ins_of [- 1, 0]"
  using ex_consensus_run by (simp add: max_ins_of_def)

subsection \<open>The calibrator and the entry point\<close>

lemma annotate_read_str_len:
  "annotate_read bca l_run ref_type types qavg s sct p = annotate_read bca l_run ref_type types qavg s' sct p"
  unfolding annotate_read_def est_seqQ_def by (rule refl)

lemma annotate_reads_str_len:
  "annotate_reads bca l_run ref_type types qavg s score ps st =
   annotate_reads bca l_run ref_type types qavg s' score ps st"
proof (induction ps arbitrary: st)
  case Nil
  then show ?case by (cases st) simp
next
  case (Cons p ps)
  obtain K sumq where st: "st = (K, sumq)" by (cases st)
  show ?case
    unfolding st annotate_reads.simps
    by (simp only: annotate_read_str_len [of bca l_run ref_type types qavg s _ _ s'] Cons.IH)
qed

lemma annotate_samples_str_len:
  "annotate_samples bca l_run ref_type types qavg s score plp st =
   annotate_samples bca l_run ref_type types qavg s' score plp st"
proof (induction plp arbitrary: st)
  case Nil
  then show ?case by (cases st) simp
next
  case (Cons smp rest)
  obtain K sumq where st: "st = (K, sumq)" by (cases st)
  show ?case
    unfolding st annotate_samples.simps
    by (simp only: annotate_reads_str_len [of bca l_run ref_type types qavg s _ _ _ s'] Cons.IH)
qed

text \<open>
  Claim C10. \<open>est_seqQ\<close> does not read \<open>str_len\<close>: two calls that differ in it only
  return the same value, and so the repeat lengths \<open>str_len1\<close> and \<open>str_len2\<close> passed to
  \<open>bcf_cgp_compute_indelQ\<close> change nothing of its result.
\<close>

theorem str_len_unused:
  "est_seqQ bca l l_run s = est_seqQ bca l l_run s' \<and>
   bcf_cgp_compute_indelQ al null_type plp bca inscns_in l_run max_ins ref_type types qavg score s1 s2 =
   bcf_cgp_compute_indelQ al null_type plp bca inscns_in l_run max_ins ref_type types qavg score s1' s2'"
proof
  show "est_seqQ bca l l_run s = est_seqQ bca l l_run s'" by (simp add: est_seqQ_def)
  show "bcf_cgp_compute_indelQ al null_type plp bca inscns_in l_run max_ins ref_type types qavg score s1 s2 =
   bcf_cgp_compute_indelQ al null_type plp bca inscns_in l_run max_ins ref_type types qavg score s1' s2'"
    unfolding bcf_cgp_compute_indelQ_def
    by (simp only: annotate_samples_str_len [of bca l_run ref_type types qavg s1 _ _ _ s1'])
qed

lemma aux_call_nonneg: "0 \<le> aux_call c"
  by (simp add: aux_call_def)

lemma sum_list_pos_iff: "(\<forall>x \<in> set xs. (0::int) \<le> x) \<Longrightarrow> 0 < sum_list xs \<longleftrightarrow> (\<exists>x \<in> set xs. 0 < x)"
proof (induction xs)
  case Nil
  then show ?case by simp
next
  case (Cons a xs)
  then have "0 \<le> a" "0 \<le> sum_list xs" by (auto intro: sum_list_nonneg)
  with Cons show ?case by auto
qed

lemma count_alt_pos:
  "0 < count_alt plp \<longleftrightarrow> (\<exists>s \<in> set plp. \<exists>p \<in> set s. aux_call (aux p) \<noteq> 0)"
proof -
  have "0 < count_alt plp \<longleftrightarrow> (\<exists>s \<in> set plp. 0 < length (filter (\<lambda>p. aux_call (aux p) > 0) s))"
    unfolding count_alt_def by (subst sum_list_pos_iff) auto
  also have "\<dots> \<longleftrightarrow> (\<exists>s \<in> set plp. \<exists>p \<in> set s. aux_call (aux p) > 0)"
    by (simp add: filter_empty_conv)
  also have "\<dots> \<longleftrightarrow> (\<exists>s \<in> set plp. \<exists>p \<in> set s. aux_call (aux p) \<noteq> 0)"
    using aux_call_nonneg by (metis less_le)
  finally show ?thesis .
qed

lemma aux_call_slot: "0 \<le> j \<Longrightarrow> j \<le> 4 \<Longrightarrow> aux_call (push_bit 16 j OR (x AND 0xffff)) = j"
proof -
  assume j: "0 \<le> j" "j \<le> 4"
  have tj: "take_bit 6 j = j" using j by (simp add: take_bit_int_eq_self)
  have m6: "(0x3f::int) = mask 6" by (simp add: mask_eq_exp_minus_1)
  have m16: "(0xffff::int) = mask 16" by (simp add: mask_eq_exp_minus_1)
  have "aux_call (push_bit 16 (take_bit 6 j) OR (x AND 0xffff)) = take_bit 6 j"
    unfolding aux_call_def m6 m16
    by (rule bit_eqI) (auto simp add: bit_simps)
  then show ?thesis by (simp only: tj)
qed

lemma remap_read_call:
  "0 \<le> aux_call (aux (remap_read types its p)) \<and> aux_call (aux (remap_read types its p)) \<le> 4"
proof -
  define j where "j = int (length (takeWhile (\<lambda>v. v \<noteq> types ! nat (aux_call (aux p))) (take 4 its)))"
  have "length (takeWhile (\<lambda>v. v \<noteq> types ! nat (aux_call (aux p))) (take 4 its)) \<le> length (take 4 its)"
    by (rule length_takeWhile_le)
  then have j: "0 \<le> j" "j \<le> 4" by (simp_all add: j_def)
  have "aux_call (push_bit 16 j OR (y AND 0xffff)) = j" for y
    using j by (rule aux_call_slot)
  from this[of "aux p"] this[of 0]
  have "aux_call (aux (remap_read types its p)) = j"
    by (simp add: remap_read_def Let_def j_def[symmetric])
  then show ?thesis using j by simp
qed

lemma compute_indelQ_result:
  assumes "bcf_cgp_compute_indelQ al null_type plp bca inscns_in l_run max_ins ref_type types qavg
             score s1 s2 = (n, plp', bca')"
  shows "(n = - 1 \<and> \<not> realloc_inscns al) \<or>
         (n = count_alt plp' \<and> (\<forall>s \<in> set plp'. \<forall>p \<in> set s. aux_call (aux p) \<le> 4))"
  using assms unfolding bcf_cgp_compute_indelQ_def Let_def
  by (auto split: prod.splits if_splits simp: remap_read_call)

text \<open>The runs of the small site, evaluated step by step.\<close>

lemma ex_find_types:
  "bcf_cgp_find_types ex_allocs [[ex_read 0, ex_read 1]] 0 ex_bca ''ACGT''
   = (Some \<lparr>types_r = [0, 1], n_types_r = 2, ref_type_r = 0, max_rd_len_r = 2, N_r = 2\<rparr>,
      ex_bca\<lparr>max_support := 1, max_frac := 1 / 2\<rparr>)"
  by code_simp

lemma ex_find_types_NN:
  "bcf_cgp_find_types ex_allocs [[ex_read 0, ex_read 1]] 0 ex_bca ''NN''
   = (None, ex_bca\<lparr>max_support := 1, max_frac := 1 / 2\<rparr>)"
  by code_simp

lemma ex_qavg: "site_qavg [[ex_read 0, ex_read 1]] = 121 / 5"
  by code_simp

lemma ex_calibrate_alt:
  "bcf_cgp_compute_indelQ ex_allocs 10000 [[ex_read 0, ex_read 1]]
     (ex_bca\<lparr>max_support := 1, max_frac := 1 / 2, indelreg := 0\<rparr>) [7, 7] 1 1 0 [0, 1] (121 / 5)
     [0, 256, 5000, 256] 1 0
   = (1, [[(ex_read 0)\<lparr>aux := 10241\<rparr>, (ex_read 1)\<lparr>aux := 75794\<rparr>]],
      ex_bca\<lparr>max_support := 1, max_frac := 1 / 2, maxins := 1, inscns := [7, 7, 0, 0],
                   indel_types := [0, 1, 10000, 10000]\<rparr>)"
  by code_simp

lemma ex_calibrate_ref:
  "bcf_cgp_compute_indelQ ex_allocs 10000 [[ex_read 0, ex_read 1]]
     (ex_bca\<lparr>max_support := 1, max_frac := 1 / 2, indelreg := 0\<rparr>) [7, 7] 1 1 0 [0, 1] (121 / 5)
     [0, 256, 0, 256] 1 0
   = (0, [[(ex_read 0)\<lparr>aux := 10241\<rparr>, (ex_read 1)\<lparr>aux := 10241\<rparr>]],
      ex_bca\<lparr>max_support := 1, max_frac := 1 / 2, maxins := 1, inscns := [7, 7, 0, 0],
                   indel_types := [0, 1, 10000, 10000]\<rparr>)"
  by code_simp

lemma ex_read_indel: "indel (ex_read d) = d"
  by (simp add: ex_read_def)

lemma ex_run_alt:
  "gap_prep_run ex_allocs 10000 (ex_realign [0, 256, 5000, 256]) [[ex_read 0, ex_read 1]] 0
     (Some ex_bca) (Some ''ACGT'') 4
   = (Calibrated 1, [[(ex_read 0)\<lparr>aux := 10241\<rparr>, (ex_read 1)\<lparr>aux := 75794\<rparr>]],
      Some (ex_bca\<lparr>max_support := 1, max_frac := 1 / 2, maxins := 1, inscns := [7, 7, 0, 0],
                   indel_types := [0, 1, 10000, 10000]\<rparr>))"
  unfolding gap_prep_run_def Let_def
  by (simp add: ex_read_indel ex_find_types ex_qavg ex_realign_def max_ins_of_def ex_calibrate_alt)

lemma ex_run_ref:
  "gap_prep_run ex_allocs 10000 (ex_realign [0, 256, 0, 256]) [[ex_read 0, ex_read 1]] 0
     (Some ex_bca) (Some ''ACGT'') 4
   = (Calibrated 0, [[(ex_read 0)\<lparr>aux := 10241\<rparr>, (ex_read 1)\<lparr>aux := 10241\<rparr>]],
      Some (ex_bca\<lparr>max_support := 1, max_frac := 1 / 2, maxins := 1, inscns := [7, 7, 0, 0],
                   indel_types := [0, 1, 10000, 10000]\<rparr>))"
  unfolding gap_prep_run_def Let_def
  by (simp add: ex_read_indel ex_find_types ex_qavg ex_realign_def max_ins_of_def ex_calibrate_ref)

lemma ex_run_NN:
  "gap_prep_run ex_allocs 10000 (ex_realign []) [[ex_read 0, ex_read 1]] 0
     (Some ex_bca) (Some ''NN'') 2
   = (No_types, [[ex_read 0, ex_read 1]], Some (ex_bca\<lparr>max_support := 1, max_frac := 1 / 2\<rparr>))"
  unfolding gap_prep_run_def Let_def
  by (simp add: ex_read_indel ex_find_types_NN)

text \<open>The site with five candidate types, and the small site when \<open>realloc\<close> fails.\<close>

lemma ex5_find_types:
  "bcf_cgp_find_types ex_allocs [[ex_read 1, ex_read 2, ex_read 3, ex_read 4]] 0 ex_bca ''ACGT''
   = (Some \<lparr>types_r = [0, 1, 2, 3, 4], n_types_r = 5, ref_type_r = 0, max_rd_len_r = 2, N_r = 4\<rparr>,
      ex_bca\<lparr>max_support := 4, max_frac := 1\<rparr>)"
  by code_simp

lemma ex5_qavg: "site_qavg [[ex_read 1, ex_read 2, ex_read 3, ex_read 4]] = 241 / 9"
  by code_simp

lemma ex5_calibrate:
  "bcf_cgp_compute_indelQ ex_allocs 10000 [[ex_read 1, ex_read 2, ex_read 3, ex_read 4]]
     (ex_bca\<lparr>max_support := 4, max_frac := 1, indelreg := 0\<rparr>) (replicate 20 7) 1 4 0
     [0, 1, 2, 3, 4] (241 / 9) ex_score5 1 0
   = (1, [[(ex_read 1)\<lparr>aux := 262144\<rparr>, (ex_read 2)\<lparr>aux := 10241\<rparr>,
           (ex_read 3)\<lparr>aux := 10241\<rparr>, (ex_read 4)\<lparr>aux := 10241\<rparr>]],
      ex_bca\<lparr>max_support := 4, max_frac := 1, maxins := 4, inscns := replicate 16 7,
             indel_types := [0, 4, 3, 2]\<rparr>)"
  by code_simp

lemma ex5_run:
  "gap_prep_run ex_allocs 10000 (ex_realign5 ex_score5) [[ex_read 1, ex_read 2, ex_read 3, ex_read 4]] 0
     (Some ex_bca) (Some ''ACGT'') 4
   = (Calibrated 1, [[(ex_read 1)\<lparr>aux := 262144\<rparr>, (ex_read 2)\<lparr>aux := 10241\<rparr>,
           (ex_read 3)\<lparr>aux := 10241\<rparr>, (ex_read 4)\<lparr>aux := 10241\<rparr>]],
      Some (ex_bca\<lparr>max_support := 4, max_frac := 1, maxins := 4, inscns := replicate 16 7,
             indel_types := [0, 4, 3, 2]\<rparr>))"
  unfolding gap_prep_run_def Let_def
  by (simp add: ex_read_indel ex5_find_types ex5_qavg ex_realign5_def max_ins_of_def ex5_calibrate)

lemma ex_find_types_no_realloc:
  "bcf_cgp_find_types (ex_allocs\<lparr>realloc_inscns := False\<rparr>) [[ex_read 0, ex_read 1]] 0 ex_bca ''ACGT''
   = (Some \<lparr>types_r = [0, 1], n_types_r = 2, ref_type_r = 0, max_rd_len_r = 2, N_r = 2\<rparr>,
      ex_bca\<lparr>max_support := 1, max_frac := 1 / 2\<rparr>)"
  by code_simp

lemma ex_calibrate_no_realloc:
  "bcf_cgp_compute_indelQ (ex_allocs\<lparr>realloc_inscns := False\<rparr>) 10000 [[ex_read 0, ex_read 1]]
     (ex_bca\<lparr>max_support := 1, max_frac := 1 / 2, indelreg := 0\<rparr>) [7, 7] 1 1 0 [0, 1] (121 / 5)
     [0, 256, 5000, 256] 1 0
   = (- 1, [[(ex_read 0)\<lparr>aux := 10241\<rparr>, (ex_read 1)\<lparr>aux := 75794\<rparr>]],
      ex_bca\<lparr>max_support := 1, max_frac := 1 / 2, maxins := 1, inscns := []\<rparr>)"
  by code_simp

lemma ex_run_no_realloc:
  "gap_prep_run (ex_allocs\<lparr>realloc_inscns := False\<rparr>) 10000 (ex_realign [0, 256, 5000, 256])
     [[ex_read 0, ex_read 1]] 0 (Some ex_bca) (Some ''ACGT'') 4
   = (Calibrated (- 1), [[(ex_read 0)\<lparr>aux := 10241\<rparr>, (ex_read 1)\<lparr>aux := 75794\<rparr>]],
      Some (ex_bca\<lparr>max_support := 1, max_frac := 1 / 2, maxins := 1, inscns := []\<rparr>))"
  unfolding gap_prep_run_def Let_def
  by (simp add: ex_read_indel ex_find_types_no_realloc ex_qavg ex_realign_def max_ins_of_def
        ex_calibrate_no_realloc)

text \<open>
  Claim C2, as the code has it. When a call reaches the calibrator, \<open>bcf_edlib_gap_prep\<close>
  returns 0 if the value \<open>n\<close> the calibrator returns is positive and \<open>-1\<close> otherwise. Either
  \<open>realloc\<close> has failed in the calibrator and \<open>n = -1\<close>; or \<open>n\<close> is \<open>n_alt\<close>, every read
  has a final call index \<open>(aux>>16)&0x3f\<close> from 0 to 4, and \<open>n_alt\<close> counts the reads whose
  index is not the reference slot 0: the reads called with one of the types 1 to 3 and the
  reads that got the no-call index 4. So 0 is returned exactly when some read has a final
  index from 1 to 4.
\<close>

theorem gap_prep_return_code:
  assumes "gap_prep_run al null_type realign plp ps bca_opt ref_opt ref_len = (Calibrated n, plp', bca')"
  shows "bcf_edlib_gap_prep al null_type realign plp ps bca_opt ref_opt ref_len
           = ((if 0 < n then 0 else - 1), plp', bca') \<and>
         ((n = - 1 \<and> \<not> realloc_inscns al) \<or>
          (n = count_alt plp' \<and>
           (\<forall>s \<in> set plp'. \<forall>p \<in> set s. 0 \<le> aux_call (aux p) \<and> aux_call (aux p) \<le> 4) \<and>
           (0 < n \<longleftrightarrow> (\<exists>s \<in> set plp'. \<exists>p \<in> set s. 1 \<le> aux_call (aux p)))))"
proof -
  have ret: "bcf_edlib_gap_prep al null_type realign plp ps bca_opt ref_opt ref_len
           = ((if 0 < n then 0 else - 1), plp', bca')"
    using assms by (simp add: bcf_edlib_gap_prep_def return_code_def)
  from assms obtain bca0 inscns_in l_run max_ins ref_type types qavg score s1 s2 b where
    "bcf_cgp_compute_indelQ al null_type plp bca0 inscns_in l_run max_ins ref_type types qavg
             score s1 s2 = (n, plp', b)"
    unfolding gap_prep_run_def Let_def
    by (auto split: option.splits if_splits prod.splits realign_outcome.splits)
  from compute_indelQ_result[OF this]
  have c: "(n = - 1 \<and> \<not> realloc_inscns al) \<or>
         (n = count_alt plp' \<and> (\<forall>s \<in> set plp'. \<forall>p \<in> set s. aux_call (aux p) \<le> 4))" .
  have "1 \<le> aux_call x \<longleftrightarrow> aux_call x \<noteq> 0" for x
    using aux_call_nonneg[of x] by linarith
  then have p: "0 < count_alt plp' \<longleftrightarrow> (\<exists>s \<in> set plp'. \<exists>p \<in> set s. 1 \<le> aux_call (aux p))"
    by (simp add: count_alt_pos)
  show ?thesis using ret c p aux_call_nonneg by auto
qed

theorem gap_prep_return_code_witness:
  "bcf_edlib_gap_prep ex_allocs 10000 (ex_realign [0, 256, 5000, 256]) [[ex_read 0, ex_read 1]] 0
     (Some ex_bca) (Some ''ACGT'') 4
   = (0, [[(ex_read 0)\<lparr>aux := 10241\<rparr>, (ex_read 1)\<lparr>aux := 75794\<rparr>]],
      Some (ex_bca\<lparr>max_support := 1, max_frac := 1 / 2, maxins := 1, inscns := [7, 7, 0, 0],
                   indel_types := [0, 1, 10000, 10000]\<rparr>)) \<and>
   count_alt [[(ex_read 0)\<lparr>aux := 10241\<rparr>, (ex_read 1)\<lparr>aux := 75794\<rparr>]] = 1 \<and>
   map aux_call [10241, 75794] = [0, 1]"
  using gap_prep_return_code [OF ex_run_alt] by (simp add: aux_call_def)

text \<open>
  The claim as the specification states it fails in both directions. At the site with
  five candidate types the three types kept beside the reference are 4, 3 and 2; the read
  whose best type is 1 gets the no-call index 4 and the other reads the reference, so no
  read is called with a non-reference type, and yet \<open>n_alt = 1\<close> and 0 is returned. And
  when \<open>realloc\<close> fails in the calibrator, \<open>-1\<close> is returned while the annotation that the
  first loop wrote stays in the reads: the second read carries the call index 1.
\<close>

theorem return_code_no_call_counterexample:
  "bcf_edlib_gap_prep ex_allocs 10000 (ex_realign5 ex_score5)
     [[ex_read 1, ex_read 2, ex_read 3, ex_read 4]] 0 (Some ex_bca) (Some ''ACGT'') 4
   = (0, [[(ex_read 1)\<lparr>aux := 262144\<rparr>, (ex_read 2)\<lparr>aux := 10241\<rparr>,
           (ex_read 3)\<lparr>aux := 10241\<rparr>, (ex_read 4)\<lparr>aux := 10241\<rparr>]],
      Some (ex_bca\<lparr>max_support := 4, max_frac := 1, maxins := 4, inscns := replicate 16 7,
             indel_types := [0, 4, 3, 2]\<rparr>)) \<and>
   map aux_call [262144, 10241, 10241, 10241] = [4, 0, 0, 0] \<and>
   bcf_edlib_gap_prep (ex_allocs\<lparr>realloc_inscns := False\<rparr>) 10000 (ex_realign [0, 256, 5000, 256])
     [[ex_read 0, ex_read 1]] 0 (Some ex_bca) (Some ''ACGT'') 4
   = (- 1, [[(ex_read 0)\<lparr>aux := 10241\<rparr>, (ex_read 1)\<lparr>aux := 75794\<rparr>]],
      Some (ex_bca\<lparr>max_support := 1, max_frac := 1 / 2, maxins := 1, inscns := []\<rparr>)) \<and>
   map aux_call [10241, 75794] = [0, 1]"
  unfolding bcf_edlib_gap_prep_def ex5_run ex_run_no_realloc
  by (simp add: return_code_def aux_call_def)

text \<open>
  Claim C3, as the code has it. When \<open>bcf_edlib_gap_prep\<close> returns \<open>-1\<close> without having
  run the calibrator (a null argument, no read with an indel, no candidate types, or an
  allocation that fails before it), no read is changed and \<open>indel_types\<close>, \<open>inscns\<close> and
  \<open>maxins\<close> of \<open>bca\<close> are as before.
\<close>

theorem no_call_before_calibration:
  assumes "gap_prep_run al null_type realign plp ps bca_opt ref_opt ref_len = (e, plp', bca')"
    and "\<forall>n. e \<noteq> Calibrated n"
  shows "bcf_edlib_gap_prep al null_type realign plp ps bca_opt ref_opt ref_len = (- 1, plp', bca') \<and>
         plp' = plp \<and>
         map_option indel_types bca' = map_option indel_types bca_opt \<and>
         map_option inscns bca' = map_option inscns bca_opt \<and>
         map_option maxins bca' = map_option maxins bca_opt"
proof -
  have ret: "bcf_edlib_gap_prep al null_type realign plp ps bca_opt ref_opt ref_len = (- 1, plp', bca')"
    using assms by (cases e) (simp_all add: bcf_edlib_gap_prep_def return_code_def)
  have fr: "\<exists>a b. snd (bcf_cgp_find_types al plp ps bca rf) = bca\<lparr>max_support := a, max_frac := b\<rparr>" for bca rf
    by (rule find_types_frame)
  have "plp' = plp \<and>
         map_option indel_types bca' = map_option indel_types bca_opt \<and>
         map_option inscns bca' = map_option inscns bca_opt \<and>
         map_option maxins bca' = map_option maxins bca_opt"
  proof (cases ref_opt)
    case None
    then show ?thesis using assms(1) by (auto simp: gap_prep_run_def)
  next
    case (Some rf)
    note rf = this
    show ?thesis
    proof (cases bca_opt)
      case None
      then show ?thesis using assms(1) rf by (auto simp: gap_prep_run_def)
    next
      case (Some bca)
      obtain r bca1 where ft: "bcf_cgp_find_types al plp ps bca rf = (r, bca1)" by (metis surj_pair)
      from fr[of bca rf] ft obtain a b where b1: "bca1 = bca\<lparr>max_support := a, max_frac := b\<rparr>" by auto
      show ?thesis using assms rf Some ft b1
        unfolding gap_prep_run_def Let_def
        by (auto split: if_splits option.splits realign_outcome.splits prod.splits)
    qed
  qed
  with ret show ?thesis by simp
qed

theorem no_call_before_calibration_witness:
  "bcf_edlib_gap_prep ex_allocs 10000 (ex_realign []) [[ex_read 0, ex_read 1]] 0
     (Some ex_bca) (Some ''NN'') 2
   = (- 1, [[ex_read 0, ex_read 1]], Some (ex_bca\<lparr>max_support := 1, max_frac := 1 / 2\<rparr>))"
  using no_call_before_calibration [OF ex_run_NN] by simp

text \<open>
  The claim as the specification states it fails when the calibrator has run and no read
  is called with an indel: the result is \<open>-1\<close>, and the annotation of every read, the
  chosen types and the insertion consensus have been written.
\<close>

theorem no_call_outputs_changed_counterexample:
  "bcf_edlib_gap_prep ex_allocs 10000 (ex_realign [0, 256, 0, 256]) [[ex_read 0, ex_read 1]] 0
     (Some ex_bca) (Some ''ACGT'') 4
   = (- 1, [[(ex_read 0)\<lparr>aux := 10241\<rparr>, (ex_read 1)\<lparr>aux := 10241\<rparr>]],
      Some (ex_bca\<lparr>max_support := 1, max_frac := 1 / 2, maxins := 1, inscns := [7, 7, 0, 0],
                   indel_types := [0, 1, 10000, 10000]\<rparr>)) \<and>
   aux (ex_read 0) = 0 \<and> aux (ex_read 1) = 0 \<and>
   indel_types ex_bca = [10000, 10000, 10000, 10000] \<and> inscns ex_bca = []"
  unfolding bcf_edlib_gap_prep_def ex_run_ref
  by (simp add: return_code_def ex_read_def ex_bca_def)

text \<open>
  Claim C4. If every read of the site has indel 0, \<open>bcf_edlib_gap_prep\<close> returns \<open>-1\<close> and
  leaves every read (and \<open>bca\<close>) as it was.
\<close>

theorem no_indel_no_call:
  assumes "\<forall>s \<in> set plp. \<forall>p \<in> set s. indel p = 0"
  shows "bcf_edlib_gap_prep al null_type realign plp ps bca_opt ref_opt ref_len = (- 1, plp, bca_opt)"
proof -
  have z: "list_all (list_all (\<lambda>p. indel p = 0)) plp" using assms by (simp add: list_all_iff)
  show ?thesis
    unfolding bcf_edlib_gap_prep_def gap_prep_run_def
    using z by (simp add: return_code_def split: option.splits)
qed

theorem no_indel_no_call_witness:
  "bcf_edlib_gap_prep ex_allocs 10000 (ex_realign []) [[ex_read 0, ex_read 0], [ex_read 0]] 0
     (Some ex_bca) (Some ''ACGT'') 4
   = (- 1, [[ex_read 0, ex_read 0], [ex_read 0]], Some ex_bca)"
  using no_indel_no_call [of "[[ex_read 0, ex_read 0], [ex_read 0]]" ex_allocs 10000 "ex_realign []" 0
      "Some ex_bca" "Some ''ACGT''" 4]
  by (simp add: ex_read_def)

end
